theory Spec2Isabelle
  imports Complex_Main "HOL-Library.Word"
begin

text \<open>
  A shallow embedding of \<^verbatim>\<open>streamMoney\<close> (\<^verbatim>\<open>src/services/switch.ts\<close>): the decimals it
  computes with, the reader of the reject payload, the session that \<^verbatim>\<open>trySendPacket\<close>
  updates call by call, and the properties of the stream proved about them.  What the
  function reads from outside (the clock, the capacities of the uplinks, the secret, the
  reply to each packet) is an input of the model, one record per call.
\<close>

section \<open>Arbitrary-precision decimals (bignumber.js)\<close>

text \<open>
  Every amount of \<^verbatim>\<open>src/services/switch.ts\<close> is a \<^verbatim>\<open>BigNumber\<close>: a finite decimal,
  \<^verbatim>\<open>Infinity\<close>, \<^verbatim>\<open>-Infinity\<close> or \<^verbatim>\<open>NaN\<close>.  Finite values are modelled as rationals
  (sums, differences and products of decimals are exact; quotients are rounded, see
  \<open>bn_div\<close>).  The sign of zero is not modelled: no divisor of the stream is a negative zero.
\<close>

datatype bignum = Fin rat | PInf | NInf | NaN

text \<open>\<^verbatim>\<open>compare(x, y)\<close>: \<^verbatim>\<open>null\<close> when either side is \<^verbatim>\<open>NaN\<close>, else \<open>-1\<close>, \<open>0\<close> or \<open>1\<close>.\<close>

fun compare :: "bignum \<Rightarrow> bignum \<Rightarrow> int option" where
  "compare NaN y = None"
| "compare x NaN = None"
| "compare (Fin a) (Fin b) = Some (if a < b then - 1 else if a = b then 0 else 1)"
| "compare (Fin a) PInf = Some (- 1)"
| "compare (Fin a) NInf = Some 1"
| "compare PInf PInf = Some 0"
| "compare PInf y = Some 1"
| "compare NInf NInf = Some 0"
| "compare NInf y = Some (- 1)"

definition bn_gt :: "bignum \<Rightarrow> bignum \<Rightarrow> bool" where
  "bn_gt x y = (compare x y = Some 1)"

definition bn_gte :: "bignum \<Rightarrow> bignum \<Rightarrow> bool" where
  "bn_gte x y = (compare x y = Some 1 \<or> compare x y = Some 0)"

definition bn_lt :: "bignum \<Rightarrow> bignum \<Rightarrow> bool" where
  "bn_lt x y = (compare x y = Some (- 1))"

definition bn_lte :: "bignum \<Rightarrow> bignum \<Rightarrow> bool" where
  "bn_lte x y = (compare x y = Some (- 1) \<or> compare x y = Some 0)"

fun bn_isZero :: "bignum \<Rightarrow> bool" where
  "bn_isZero (Fin a) = (a = 0)"
| "bn_isZero x = False"

fun bn_plus :: "bignum \<Rightarrow> bignum \<Rightarrow> bignum" where
  "bn_plus NaN y = NaN"
| "bn_plus x NaN = NaN"
| "bn_plus (Fin a) (Fin b) = Fin (a + b)"
| "bn_plus PInf NInf = NaN"
| "bn_plus NInf PInf = NaN"
| "bn_plus PInf y = PInf"
| "bn_plus NInf y = NInf"
| "bn_plus (Fin a) y = y"

fun bn_minus :: "bignum \<Rightarrow> bignum \<Rightarrow> bignum" where
  "bn_minus NaN y = NaN"
| "bn_minus x NaN = NaN"
| "bn_minus (Fin a) (Fin b) = Fin (a - b)"
| "bn_minus PInf PInf = NaN"
| "bn_minus NInf NInf = NaN"
| "bn_minus PInf y = PInf"
| "bn_minus NInf y = NInf"
| "bn_minus (Fin a) PInf = NInf"
| "bn_minus (Fin a) NInf = PInf"

fun bn_negated :: "bignum \<Rightarrow> bignum" where
  "bn_negated (Fin a) = Fin (- a)"
| "bn_negated PInf = NInf"
| "bn_negated NInf = PInf"
| "bn_negated NaN = NaN"

text \<open>\<^verbatim>\<open>times\<close>: exact; \<^verbatim>\<open>NaN\<close> when a side is \<^verbatim>\<open>NaN\<close> or the product is zero times infinity.\<close>

fun bn_sign :: "bignum \<Rightarrow> int" where
  "bn_sign (Fin a) = (if a < 0 then - 1 else 1)"
| "bn_sign PInf = 1"
| "bn_sign NInf = - 1"
| "bn_sign NaN = 0"

definition bn_inf :: "int \<Rightarrow> bignum" where
  "bn_inf s = (if s < 0 then NInf else PInf)"

fun bn_times :: "bignum \<Rightarrow> bignum \<Rightarrow> bignum" where
  "bn_times NaN y = NaN"
| "bn_times x NaN = NaN"
| "bn_times (Fin a) (Fin b) = Fin (a * b)"
| "bn_times (Fin a) y = (if a = 0 then NaN else bn_inf (bn_sign (Fin a) * bn_sign y))"
| "bn_times x (Fin b) = (if b = 0 then NaN else bn_inf (bn_sign x * bn_sign (Fin b)))"
| "bn_times x y = bn_inf (bn_sign x * bn_sign y)"

text \<open>
  The library's inner \<^verbatim>\<open>div(x, y, dp, rm)\<close>; the rounding of a finite quotient is the
  parameter \<open>rnd\<close>.  \<^verbatim>\<open>NaN\<close> when a side is \<^verbatim>\<open>NaN\<close>, or both are infinite, or both are
  zero; zero when the dividend is zero or the divisor infinite; otherwise a zero divisor or
  an infinite dividend gives an infinity.
\<close>

fun div_rounded :: "(rat \<Rightarrow> rat) \<Rightarrow> bignum \<Rightarrow> bignum \<Rightarrow> bignum" where
  "div_rounded rnd NaN y = NaN"
| "div_rounded rnd x NaN = NaN"
| "div_rounded rnd (Fin a) (Fin b) =
     (if b = 0 then (if a = 0 then NaN else bn_inf (bn_sign (Fin a)))
      else if a = 0 then Fin 0
      else Fin (rnd (a / b)))"
| "div_rounded rnd (Fin a) y = Fin 0"
| "div_rounded rnd x (Fin b) = bn_inf (bn_sign x * bn_sign (Fin b))"
| "div_rounded rnd x y = NaN"

text \<open>
  \<^verbatim>\<open>ROUND_HALF_UP\<close> to \<open>dp\<close> decimal places: to the nearest neighbour, a tie away from
  zero.  \<^verbatim>\<open>ROUND_DOWN\<close> to an integer: towards zero.
\<close>

definition round_half_up :: "nat \<Rightarrow> rat \<Rightarrow> rat" where
  "round_half_up dp x =
     (if 0 \<le> x then of_int \<lfloor>x * 10 ^ dp + 1 / 2\<rfloor> / 10 ^ dp
      else - (of_int \<lfloor>- x * 10 ^ dp + 1 / 2\<rfloor> / 10 ^ dp))"

definition round_down :: "rat \<Rightarrow> rat" where
  "round_down x = (if 0 \<le> x then of_int \<lfloor>x\<rfloor> else of_int \<lceil>x\<rceil>)"

text \<open>
  \<^verbatim>\<open>div\<close> (\<^verbatim>\<open>dividedBy\<close>) returns the quotient rounded to \<^verbatim>\<open>DECIMAL_PLACES\<close> decimal
  places by \<^verbatim>\<open>ROUNDING_MODE\<close>: one divided by three is \<open>0.33333333333333333333\<close>.  Both
  settings are the library's defaults, 20 and \<^verbatim>\<open>ROUND_HALF_UP\<close>: \<^verbatim>\<open>BigNumber.config\<close> in
  \<^verbatim>\<open>switch.ts\<close> sets \<^verbatim>\<open>EXPONENTIAL_AT\<close> only.  \<^verbatim>\<open>dividedToIntegerBy\<close> is the same division
  with no decimal places and \<^verbatim>\<open>ROUND_DOWN\<close>.
\<close>

definition DECIMAL_PLACES :: nat where
  "DECIMAL_PLACES = 20"

definition bn_div :: "bignum \<Rightarrow> bignum \<Rightarrow> bignum" where
  "bn_div x y = div_rounded (round_half_up DECIMAL_PLACES) x y"

definition bn_dividedToIntegerBy :: "bignum \<Rightarrow> bignum \<Rightarrow> bignum" where
  "bn_dividedToIntegerBy x y = div_rounded round_down x y"

text \<open>\<^verbatim>\<open>dp(0, ROUND_CEIL)\<close> and \<^verbatim>\<open>integerValue(ROUND_CEIL)\<close>.\<close>

fun bn_ceil :: "bignum \<Rightarrow> bignum" where
  "bn_ceil (Fin a) = Fin (of_int \<lceil>a\<rceil>)"
| "bn_ceil x = x"

text \<open>
  \<^verbatim>\<open>BigNumber.min\<close> is \<^verbatim>\<open>maxOrMin(arguments, P.gt)\<close>: the running value \<open>m\<close> is replaced by
  the next argument when \<open>m.gt(n)\<close>; a \<^verbatim>\<open>NaN\<close> argument ends the scan with \<^verbatim>\<open>NaN\<close>.
\<close>

fun maxOrMin :: "(bignum \<Rightarrow> bignum \<Rightarrow> bool) \<Rightarrow> bignum \<Rightarrow> bignum list \<Rightarrow> bignum" where
  "maxOrMin method m [] = m"
| "maxOrMin method m (n # ns) =
     (if n = NaN then n
      else if method m n then maxOrMin method n ns
      else maxOrMin method m ns)"

definition bn_min :: "bignum \<Rightarrow> bignum list \<Rightarrow> bignum" where
  "bn_min x xs = maxOrMin bn_gt x xs"


section \<open>The reject payload reader (oer-utils)\<close>

type_synonym buffer = "8 word list"

text \<open>
  \<^verbatim>\<open>readUInt64BigNum\<close> reads eight bytes, big-endian, at the cursor and advances it;
  reading past the end of the buffer throws.  The cursor is the rest of the buffer.
\<close>

definition uintBE :: "buffer \<Rightarrow> nat" where
  "uintBE bs = foldl (\<lambda>acc b. acc * 256 + unat b) 0 bs"

definition readUInt64BigNum :: "buffer \<Rightarrow> (bignum \<times> buffer) option" where
  "readUInt64BigNum buf =
     (if length buf < 8 then None
      else Some (Fin (of_nat (uintBE (take 8 buf))), drop 8 buf))"

section \<open>The streaming session (src/services/switch.ts)\<close>

subsection \<open>Data\<close>

text \<open>The reply of \<^verbatim>\<open>sendPacket\<close>: a fulfill (fulfillment, data) or a reject (code, data).\<close>

datatype ilp_reply = IlpFulfill buffer buffer | IlpReject string buffer

text \<open>
  What an \<^verbatim>\<open>await\<close> inside \<^verbatim>\<open>trySendPacket\<close> can throw: the promise of \<^verbatim>\<open>sendPacket\<close>
  rejects, or the reader runs past the end of an F08 payload.
\<close>

datatype thrown = SendError | ReadError

text \<open>The log lines of the stream, in the order of the source.\<close>

datatype log_entry =
    LogStarting
  | LogTimedOut
  | LogSucceeded bignum
  | LogSentTooMuch bignum bignum
  | LogInsufficientOutgoing bignum
  | LogInsufficientIncoming bignum
  | LogSending nat bignum
  | LogRejected nat string
  | LogUnexpectedAmountTooLarge
  | LogReducing bignum bignum
  | LogFulfilled nat bignum
  | LogStreamEnded nat nat

text \<open>
  The handler that \<^verbatim>\<open>trySendPacket\<close> registers on the destination uplink is a closure
  over the packet amount, the execution condition and the fulfill packet of the iteration,
  and over the slippage of the stream.
\<close>

record packet_handler =
  h_packetAmount :: bignum
  h_executionCondition :: buffer
  h_fulfillment :: buffer
  h_slippage :: bignum

text \<open>The fields of an incoming prepare that the handler reads; the amount is the
  \<^verbatim>\<open>BigNumber\<close> of the packet's amount string (\<^verbatim>\<open>NaN\<close> when it is not a number).\<close>

record incoming_prepare =
  p_executionCondition :: buffer
  p_amount :: bignum

datatype handler_reply = FulfillPacket buffer | APPLICATION_ERROR

text \<open>
  The settlers' unit conversions and the hash are imported (\<^verbatim>\<open>crypto-rate-utils\<close>,
  \<^verbatim>\<open>../api\<close>, \<^verbatim>\<open>../utils/crypto\<close>) and are parameters of the model:
  \<^item> \<open>toSourceBase x\<close> is \<^verbatim>\<open>convert(sourceSettler.exchangeUnit(x), sourceSettler.baseUnit())\<close>;
  \<^item> \<open>toSourceExchange x\<close> is \<^verbatim>\<open>convert(sourceSettler.baseUnit(x), sourceSettler.exchangeUnit())\<close>;
  \<^item> \<open>toDestExchange x\<close> is \<^verbatim>\<open>convert(sourceSettler.baseUnit(x), destSettler.exchangeUnit(), state.rateBackend)\<close>;
  \<^item> \<open>toDestBase x\<close> is \<^verbatim>\<open>convert(sourceSettler.baseUnit(x), destSettler.baseUnit(), state.rateBackend)\<close>.

  The rates of the rate backend are those of one stream: the conversions do not change
  between its calls.
\<close>

record converter =
  toSourceBase :: "bignum \<Rightarrow> bignum"
  toSourceExchange :: "bignum \<Rightarrow> bignum"
  toDestExchange :: "bignum \<Rightarrow> bignum"
  toDestBase :: "bignum \<Rightarrow> bignum"
  sha256 :: "buffer \<Rightarrow> buffer"

text \<open>The uplinks of the options are the environment; an absent \<^verbatim>\<open>slippage\<close> is \<open>None\<close>.\<close>

record StreamMoneyOpts =
  amount :: bignum
  slippage :: "bignum option"

definition slippageOf :: "StreamMoneyOpts \<Rightarrow> bignum" where
  "slippageOf opts = (case slippage opts of None \<Rightarrow> Fin (1 / 100) | Some v \<Rightarrow> v)"

text \<open>
  The variables that \<^verbatim>\<open>streamMoney\<close> closes over, the handler slot of the destination
  uplink and the log.
\<close>

record session =
  amountToSend :: bignum
  timeout :: nat
  prepareCount :: nat
  fulfillCount :: nat
  totalFulfilled :: bignum
  maxPacketAmount :: bignum
  packetHandler :: "packet_handler option"
  logs :: "log_entry list"

text \<open>
  What one call of \<^verbatim>\<open>trySendPacket\<close> reads from outside: the clock at the liveness
  check, the three capacities of the uplinks, the generated secret, the outcome of
  \<^verbatim>\<open>sendPacket\<close>, and the clock when \<^verbatim>\<open>bumpIdle\<close> runs after a fulfill.
\<close>

record env =
  now :: nat
  availableToSend :: bignum
  availableToReceive :: bignum
  availableToDebit :: bignum
  secret :: buffer
  reply :: "thrown + ilp_reply"
  fulfilledAt :: nat

text \<open>The return statement at which the loop ends, and how the promise settles.\<close>

datatype outcome =
    Succeeded
  | SentTooMuch
  | TimedOut
  | InsufficientOutgoing
  | InsufficientIncoming
  | Thrown thrown

datatype step = Done outcome session | Next session

text \<open>A rejected promise carries its reason: \<open>None\<close> is \<^verbatim>\<open>undefined\<close>.\<close>

datatype promise = Resolved | Rejected "thrown option"

definition IDLE_TIMEOUT :: nat where
  "IDLE_TIMEOUT = 10000"

subsection \<open>Operations\<close>

text \<open>Lines 72-76: \<^verbatim>\<open>format\<close> shows an amount of base units in exchange units (the asset
  code that it appends is left out).\<close>

definition format :: "converter \<Rightarrow> bignum \<Rightarrow> bignum" where
  "format cv x = toSourceExchange cv x"

definition logLine :: "log_entry \<Rightarrow> session \<Rightarrow> session" where
  "logLine l s = s\<lparr>logs := logs s @ [l]\<rparr>"

definition bumpIdle :: "nat \<Rightarrow> session \<Rightarrow> session" where
  "bumpIdle dateNow s = s\<lparr>timeout := dateNow + IDLE_TIMEOUT\<rparr>"

text \<open>
  Modelled from the spec: \<^verbatim>\<open>registerPacketHandler\<close> and \<^verbatim>\<open>deregisterPacketHandler\<close> of
  \<^verbatim>\<open>../uplink\<close> are not among the sources; the uplink exposes register/deregister of a
  single incoming-packet accept predicate.
\<close>

definition registerPacketHandler :: "packet_handler \<Rightarrow> session \<Rightarrow> session" where
  "registerPacketHandler h s = s\<lparr>packetHandler := Some h\<rparr>"

definition deregisterPacketHandler :: "session \<Rightarrow> session" where
  "deregisterPacketHandler s = s\<lparr>packetHandler := None\<rparr>"

text \<open>Lines 158-170: the packet amount of an iteration.\<close>

definition packetAmountFor :: "bignum \<Rightarrow> bignum \<Rightarrow> bignum \<Rightarrow> bignum" where
  "packetAmountFor availableToDebit' remainingAmount maxPacketAmount' =
     (let packetAmount = bn_min availableToDebit' [remainingAmount, maxPacketAmount'];
          remainingNumPackets = bn_ceil (bn_div remainingAmount packetAmount)
      in bn_ceil (bn_div remainingAmount remainingNumPackets))"

text \<open>Lines 182-205: the accept predicate and the handler built from it.\<close>

definition acceptExchangeRate :: "converter \<Rightarrow> bignum \<Rightarrow> bignum \<Rightarrow> bignum \<Rightarrow> bool" where
  "acceptExchangeRate cv slippage' sourceAmount destAmount =
     bn_gte destAmount
       (bn_ceil (bn_times (toDestBase cv sourceAmount) (bn_minus (Fin 1) slippage')))"

definition correctCondition :: "buffer \<Rightarrow> buffer \<Rightarrow> bool" where
  "correctCondition executionCondition someCondition = (executionCondition = someCondition)"

definition handlePacket ::
    "converter \<Rightarrow> packet_handler \<Rightarrow> incoming_prepare \<Rightarrow> handler_reply" where
  "handlePacket cv h p =
     (if acceptExchangeRate cv (h_slippage h) (h_packetAmount h) (p_amount p)
         \<and> correctCondition (h_executionCondition h) (p_executionCondition p)
      then FulfillPacket (h_fulfillment h)
      else APPLICATION_ERROR)"

text \<open>Lines 216-247: the reaction to a reject.\<close>

definition onReject :: "session \<Rightarrow> nat \<Rightarrow> bignum \<Rightarrow> string \<Rightarrow> buffer \<Rightarrow> thrown + session" where
  "onReject s packetNum packetAmount code data =
     (let s1 = logLine (LogRejected packetNum code) s in
      if code = ''F08'' then
        (case readUInt64BigNum data of
           None \<Rightarrow> Inl ReadError
         | Some (foreignReceivedAmount, rest) \<Rightarrow>
             (case readUInt64BigNum rest of
                None \<Rightarrow> Inl ReadError
              | Some (foreignMaxPacketAmount, rest') \<Rightarrow>
                  (let newMaxPacketAmount =
                         bn_dividedToIntegerBy (bn_times packetAmount foreignMaxPacketAmount)
                           foreignReceivedAmount
                   in if bn_gte newMaxPacketAmount packetAmount
                      then Inr (logLine LogUnexpectedAmountTooLarge s1)
                      else if bn_lt newMaxPacketAmount packetAmount
                      then Inr ((logLine (LogReducing packetAmount (maxPacketAmount s1)) s1)
                                  \<lparr>maxPacketAmount := newMaxPacketAmount\<rparr>)
                      else Inr s1)))
      else Inr s1)"

text \<open>Lines 248-258: the reaction to a fulfill.\<close>

definition onFulfill :: "converter \<Rightarrow> session \<Rightarrow> nat \<Rightarrow> bignum \<Rightarrow> nat \<Rightarrow> session" where
  "onFulfill cv s packetNum packetAmount dateNow =
     (let s1 = logLine (LogFulfilled packetNum (format cv packetAmount)) s;
          s2 = bumpIdle dateNow s1
      in s2\<lparr>totalFulfilled := bn_plus (totalFulfilled s2) packetAmount,
            fulfillCount := fulfillCount s2 + 1\<rparr>)"

text \<open>
  Lines 172-207: the packet is counted, its secret and condition made, the handler
  registered and the send logged.
\<close>

definition preparePacket :: "converter \<Rightarrow> bignum \<Rightarrow> session \<Rightarrow> env \<Rightarrow> bignum \<Rightarrow> session" where
  "preparePacket cv slippage' s e packetAmount =
     (let s1 = s\<lparr>prepareCount := prepareCount s + 1\<rparr>;
          packetNum = prepareCount s1;
          fulfillment = secret e;
          executionCondition = sha256 cv fulfillment;
          s2 = registerPacketHandler
                 \<lparr>h_packetAmount = packetAmount,
                  h_executionCondition = executionCondition,
                  h_fulfillment = fulfillment,
                  h_slippage = slippage'\<rparr> s1
      in logLine (LogSending packetNum packetAmount) s2)"

text \<open>
  Lines 208-260: the packet is sent and the reply handled.  A throw leaves the function
  before line 260.  The destination address and the expiry of the packet (lines 209-213)
  have no part in what the session does with the reply.
\<close>

definition sendOne :: "converter \<Rightarrow> bignum \<Rightarrow> session \<Rightarrow> env \<Rightarrow> bignum \<Rightarrow> step" where
  "sendOne cv slippage' s e packetAmount =
     (let s3 = preparePacket cv slippage' s e packetAmount;
          packetNum = prepareCount s3
      in case reply e of
           Inl t \<Rightarrow> Done (Thrown t) s3
         | Inr (IlpReject code data) \<Rightarrow>
             (case onReject s3 packetNum packetAmount code data of
                Inl t \<Rightarrow> Done (Thrown t) (logLine (LogRejected packetNum code) s3)
              | Inr s4 \<Rightarrow> Next (deregisterPacketHandler s4))
         | Inr (IlpFulfill f d) \<Rightarrow>
             Next (deregisterPacketHandler (onFulfill cv s3 packetNum packetAmount (fulfilledAt e))))"

text \<open>Lines 97-170: the checks of one call of \<^verbatim>\<open>trySendPacket\<close>, up to the recursive call.\<close>

definition attempt :: "converter \<Rightarrow> bignum \<Rightarrow> session \<Rightarrow> env \<Rightarrow> step" where
  "attempt cv slippage' s e =
     (if now e > timeout s then Done TimedOut (logLine LogTimedOut s)
      else
        let remainingAmount = bn_minus (amountToSend s) (totalFulfilled s) in
        if bn_isZero remainingAmount
        then Done Succeeded (logLine (LogSucceeded (format cv (amountToSend s))) s)
        else if bn_lte remainingAmount (Fin 0)
        then Done SentTooMuch
               (logLine (LogSentTooMuch (format cv (bn_negated remainingAmount))
                           (format cv (amountToSend s))) s)
        else if bn_gt (toSourceExchange cv remainingAmount) (availableToSend e)
        then Done InsufficientOutgoing
               (logLine (LogInsufficientOutgoing (format cv remainingAmount)) s)
        else if bn_gt (toDestExchange cv remainingAmount) (availableToReceive e)
        then Done InsufficientIncoming
               (logLine (LogInsufficientIncoming (format cv remainingAmount)) s)
        else
          let availableToDebit' = toSourceBase cv (availableToDebit e) in
          if bn_lte availableToDebit' (Fin 0) then Next s
          else sendOne cv slippage' s e
                 (packetAmountFor availableToDebit' remainingAmount (maxPacketAmount s)))"

text \<open>
  \<^verbatim>\<open>trySendPacket\<close> calls itself until a return statement or a throw ends it.  The
  environment of the successive calls is a list; \<open>None\<close> is a loop that is still running
  when the list ends.
\<close>

fun trySendPacket ::
    "converter \<Rightarrow> bignum \<Rightarrow> session \<Rightarrow> env list \<Rightarrow> (outcome \<times> session) option" where
  "trySendPacket cv slippage' s [] = None"
| "trySendPacket cv slippage' s (e # es) =
     (case attempt cv slippage' s e of
        Done out s' \<Rightarrow> Some (out, s')
      | Next s' \<Rightarrow> trySendPacket cv slippage' s' es)"

text \<open>The session after the calls that a list of environments drives, ended or not.\<close>

fun sessionAfter :: "converter \<Rightarrow> bignum \<Rightarrow> session \<Rightarrow> env list \<Rightarrow> session" where
  "sessionAfter cv slippage' s [] = s"
| "sessionAfter cv slippage' s (e # es) =
     (case attempt cv slippage' s e of
        Done out s' \<Rightarrow> s'
      | Next s' \<Rightarrow> sessionAfter cv slippage' s' es)"

text \<open>Lines 47-94: the session before the first call; \<open>dateNow\<close> is the clock of the
  first \<^verbatim>\<open>bumpIdle\<close>.  The lookup of the two settlers (lines 47-48) comes before the
  session and is not part of it.\<close>

definition startSession :: "converter \<Rightarrow> StreamMoneyOpts \<Rightarrow> nat \<Rightarrow> session" where
  "startSession cv opts dateNow =
     bumpIdle dateNow
       \<lparr>amountToSend = toSourceBase cv (amount opts),
        timeout = 0,
        prepareCount = 0,
        fulfillCount = 0,
        totalFulfilled = Fin 0,
        maxPacketAmount = PInf,
        packetHandler = None,
        logs = [LogStarting]\<rparr>"

text \<open>A return settles the promise as resolved, \<^verbatim>\<open>Promise.reject()\<close> as rejected with
  \<^verbatim>\<open>undefined\<close>, a throw as rejected with what was thrown.\<close>

fun settle :: "outcome \<Rightarrow> promise" where
  "settle Succeeded = Resolved"
| "settle SentTooMuch = Resolved"
| "settle TimedOut = Rejected None"
| "settle InsufficientOutgoing = Rejected None"
| "settle InsufficientIncoming = Rejected None"
| "settle (Thrown t) = Rejected (Some t)"

text \<open>Lines 264-269: the callback of \<^verbatim>\<open>finally\<close>.\<close>

definition onFinally :: "session \<Rightarrow> session" where
  "onFinally s =
     (let s1 = deregisterPacketHandler s
      in logLine (LogStreamEnded (fulfillCount s1) (prepareCount s1)) s1)"

definition streamMoney ::
    "converter \<Rightarrow> StreamMoneyOpts \<Rightarrow> nat \<Rightarrow> env list \<Rightarrow> (promise \<times> session) option" where
  "streamMoney cv opts dateNow es =
     (case trySendPacket cv (slippageOf opts) (startSession cv opts dateNow) es of
        None \<Rightarrow> None
      | Some (out, s) \<Rightarrow> Some (settle out, onFinally s))"


subsection \<open>Notions the claims are stated with\<close>

text \<open>The session a call of \<^verbatim>\<open>trySendPacket\<close> leaves, whether it ended the loop or not.\<close>

fun stateOf :: "step \<Rightarrow> session" where
  "stateOf (Done out s) = s"
| "stateOf (Next s) = s"

text \<open>A whole, non-negative number of base units; the values \<^verbatim>\<open>maxPacketAmount\<close> takes.\<close>

fun wholeNonneg :: "bignum \<Rightarrow> bool" where
  "wholeNonneg (Fin a) = (0 \<le> a \<and> a = of_int \<lfloor>a\<rfloor>)"
| "wholeNonneg x = False"

definition maxOk :: "bignum \<Rightarrow> bool" where
  "maxOk m = (m = PInf \<or> wholeNonneg m)"

text \<open>The amounts of the packets sent so far, read off the log line of line 207.\<close>

fun sentAmounts :: "log_entry list \<Rightarrow> bignum list" where
  "sentAmounts [] = []"
| "sentAmounts (LogSending n q # ls) = q # sentAmounts ls"
| "sentAmounts (l # ls) = sentAmounts ls"

text \<open>The largest of a list of amounts (zero for the empty list).\<close>

fun largest :: "bignum list \<Rightarrow> bignum" where
  "largest [] = Fin 0"
| "largest (q # qs) = (if bn_gt q (largest qs) then q else largest qs)"

text \<open>
  The packet sizing in the words of the specification, over exact arithmetic:
  \<open>numPackets = ceil(remaining / packetAmount)\<close>, then
  \<open>packetAmount = ceil(remaining / numPackets)\<close>.
\<close>

definition spec_numPackets :: "rat \<Rightarrow> rat \<Rightarrow> int" where
  "spec_numPackets remaining bound = \<lceil>remaining / bound\<rceil>"

definition spec_packetAmount :: "rat \<Rightarrow> rat \<Rightarrow> int" where
  "spec_packetAmount remaining bound = \<lceil>remaining / of_int (spec_numPackets remaining bound)\<rceil>"

text \<open>A reply that is a reject whose code is not F08, and a reply whose F08 payload,
  if it is one, holds the two eight-byte amounts.\<close>

fun otherReject :: "thrown + ilp_reply \<Rightarrow> bool" where
  "otherReject (Inr (IlpReject code data)) = (code \<noteq> ''F08'')"
| "otherReject r = False"

fun readableReply :: "thrown + ilp_reply \<Rightarrow> bool" where
  "readableReply (Inr (IlpReject code data)) = (code = ''F08'' \<longrightarrow> 16 \<le> length data)"
| "readableReply (Inr (IlpFulfill f d)) = True"
| "readableReply (Inl t) = False"

text \<open>
  The checks of a call of \<^verbatim>\<open>trySendPacket\<close> (lines 96-156) all pass, so that the call
  goes on to send a packet; and \<^verbatim>\<open>isFulfill\<close> of line 248, the reply is a fulfill.
\<close>

definition sendsPacket :: "converter \<Rightarrow> session \<Rightarrow> env \<Rightarrow> bool" where
  "sendsPacket cv s e =
     (let remainingAmount = bn_minus (amountToSend s) (totalFulfilled s) in
      now e \<le> timeout s
      \<and> \<not> bn_isZero remainingAmount
      \<and> \<not> bn_lte remainingAmount (Fin 0)
      \<and> \<not> bn_gt (toSourceExchange cv remainingAmount) (availableToSend e)
      \<and> \<not> bn_gt (toDestExchange cv remainingAmount) (availableToReceive e)
      \<and> \<not> bn_lte (toSourceBase cv (availableToDebit e)) (Fin 0))"

fun isFulfill :: "thrown + ilp_reply \<Rightarrow> bool" where
  "isFulfill (Inr (IlpFulfill f d)) = True"
| "isFulfill r = False"

subsection \<open>Example environments\<close>

text \<open>
  A converter between two assets whose base and exchange units coincide, at a rate of one,
  and the environment of a call in which no capacity binds and the packet is fulfilled.
\<close>

definition exampleConverter :: converter where
  "exampleConverter =
     \<lparr>toSourceBase = (\<lambda>x. x), toSourceExchange = (\<lambda>x. x),
      toDestExchange = (\<lambda>x. x), toDestBase = (\<lambda>x. x), sha256 = rev\<rparr>"

definition exampleEnv :: "nat \<Rightarrow> thrown + ilp_reply \<Rightarrow> env" where
  "exampleEnv t r =
     \<lparr>now = t, availableToSend = PInf, availableToReceive = PInf, availableToDebit = PInf,
      secret = [1, 2, 3], reply = r, fulfilledAt = t\<rparr>"

definition exampleOpts :: "rat \<Rightarrow> StreamMoneyOpts" where
  "exampleOpts a = \<lparr>amount = Fin a, slippage = None\<rparr>"

section \<open>Facts about the decimals\<close>

lemma bn_gt_Fin [simp]: "bn_gt (Fin a) (Fin b) = (b < a)"
  by (auto simp: bn_gt_def)

lemma bn_gte_Fin [simp]: "bn_gte (Fin a) (Fin b) = (b \<le> a)"
  by (auto simp: bn_gte_def)

lemma bn_lt_Fin [simp]: "bn_lt (Fin a) (Fin b) = (a < b)"
  by (auto simp: bn_lt_def)

lemma bn_lte_Fin [simp]: "bn_lte (Fin a) (Fin b) = (a \<le> b)"
  by (auto simp: bn_lte_def)

lemma bn_cmp_NaN [simp]:
  "bn_gt NaN y = False" "bn_gt x NaN = False"
  "bn_gte NaN y = False" "bn_gte x NaN = False"
  "bn_lt NaN y = False" "bn_lt x NaN = False"
  "bn_lte NaN y = False" "bn_lte x NaN = False"
  by (cases x; simp add: bn_gt_def bn_gte_def bn_lt_def bn_lte_def)+

lemma bn_cmp_PInf [simp]:
  "bn_gt PInf (Fin b) = True" "bn_gt (Fin a) PInf = False" "bn_gt PInf PInf = False"
  "bn_gte PInf (Fin b) = True" "bn_gte (Fin a) PInf = False" "bn_gte PInf PInf = True"
  "bn_lt PInf y = False" "bn_lt (Fin a) PInf = True"
  "bn_lte PInf (Fin b) = False" "bn_lte (Fin a) PInf = True" "bn_lte PInf PInf = True"
  by (cases y; simp add: bn_gt_def bn_gte_def bn_lt_def bn_lte_def)+

lemma bn_cmp_NInf [simp]:
  "bn_gt NInf y = False" "bn_gt (Fin a) NInf = True" "bn_gt PInf NInf = True"
  "bn_gte NInf (Fin b) = False" "bn_gte (Fin a) NInf = True" "bn_gte NInf PInf = False"
  "bn_gte PInf NInf = True" "bn_gte NInf NInf = True"
  "bn_lt NInf (Fin b) = True" "bn_lt (Fin a) NInf = False" "bn_lt NInf PInf = True"
  "bn_lt NInf NInf = False"
  "bn_lte NInf (Fin b) = True" "bn_lte (Fin a) NInf = False" "bn_lte NInf PInf = True"
  "bn_lte PInf NInf = False" "bn_lte NInf NInf = True"
  by (cases y; simp add: bn_gt_def bn_gte_def bn_lt_def bn_lte_def)+

lemma floor_rat_numeral [simp]:
  "\<lfloor>(numeral a :: rat) / numeral b\<rfloor> = numeral a div numeral b"
  using floor_divide_of_int_eq [of "numeral a" "numeral b", where ?'a = rat] by simp

lemma ceiling_rat_numeral [simp]:
  "\<lceil>(numeral a :: rat) / numeral b\<rceil> = - (- numeral a div numeral b)"
  using ceiling_divide_eq_div [of "numeral a" "numeral b", where ?'a = rat] by simp

lemma floor_rat_one_numeral [simp]:
  "\<lfloor>(1 :: rat) / numeral b\<rfloor> = 1 div numeral b"
  using floor_divide_of_int_eq [of 1 "numeral b", where ?'a = rat] by simp

lemma ceiling_rat_one_numeral [simp]:
  "\<lceil>(1 :: rat) / numeral b\<rceil> = - (- 1 div numeral b)"
  using ceiling_divide_eq_div [of 1 "numeral b", where ?'a = rat] by simp

section \<open>Unfolding the session on a concrete environment\<close>

lemmas session_defs = streamMoney_def startSession_def attempt_def sendOne_def preparePacket_def
  format_def
  onReject_def
  onFulfill_def onFinally_def bumpIdle_def logLine_def registerPacketHandler_def
  deregisterPacketHandler_def IDLE_TIMEOUT_def packetAmountFor_def bn_min_def bn_div_def
  bn_dividedToIntegerBy_def DECIMAL_PLACES_def round_half_up_def round_down_def slippageOf_def
  exampleConverter_def exampleEnv_def exampleOpts_def Let_def readUInt64BigNum_def uintBE_def
  bn_inf_def

section \<open>The accept predicate\<close>

text \<open>
  C3.  The handler that an iteration registers for a packet of source amount \<open>q\<close> with
  secret \<open>f = secret e\<close> answers an incoming prepare with the fulfill packet exactly when
  the prepare's condition is the hash of \<open>f\<close> and its amount is at least the oracle
  conversion \<open>c\<close> of \<open>q\<close> into destination base units times \<open>1 - slippage\<close>, rounded up;
  otherwise it answers with the application error.  In particular an amount below that
  threshold is answered with the application error although the condition is the
  committed hash.
\<close>

theorem handlePacket_accepts_iff:
  assumes c: "toDestBase cv q = Fin c"
    and h: "packetHandler (preparePacket cv (Fin sl) s e q) = Some h"
  shows "handlePacket cv h \<lparr>p_executionCondition = someCondition, p_amount = destAmount\<rparr>
         = (if someCondition = sha256 cv (secret e)
               \<and> bn_gte destAmount (Fin (of_int \<lceil>c * (1 - sl)\<rceil>))
            then FulfillPacket (secret e) else APPLICATION_ERROR)
       \<and> bn_gte (Fin d) (Fin (of_int \<lceil>c * (1 - sl)\<rceil>)) = (of_int \<lceil>c * (1 - sl)\<rceil> \<le> d)
       \<and> (d < of_int \<lceil>c * (1 - sl)\<rceil> \<longrightarrow>
            handlePacket cv h \<lparr>p_executionCondition = sha256 cv (secret e), p_amount = Fin d\<rparr>
            = APPLICATION_ERROR)"
proof -
  have h': "h = \<lparr>h_packetAmount = q, h_executionCondition = sha256 cv (secret e),
                 h_fulfillment = secret e, h_slippage = Fin sl\<rparr>"
    using h by (simp add: preparePacket_def registerPacketHandler_def logLine_def Let_def)
  show ?thesis
    unfolding h' using c
    by (auto simp: handlePacket_def acceptExchangeRate_def correctCondition_def)
qed

theorem handlePacket_accepts_iff_witness:
  "(\<exists>h. packetHandler (preparePacket exampleConverter (Fin (1 / 100))
            (startSession exampleConverter (exampleOpts 1000) 0)
            (exampleEnv 1 (Inl SendError)) (Fin 1000)) = Some h
     \<and> handlePacket exampleConverter h \<lparr>p_executionCondition = [3, 2, 1], p_amount = Fin 990\<rparr>
       = FulfillPacket [1, 2, 3]
     \<and> handlePacket exampleConverter h \<lparr>p_executionCondition = [3, 2, 1], p_amount = Fin 989\<rparr>
       = APPLICATION_ERROR)"
proof -
  let ?s = "startSession exampleConverter (exampleOpts 1000) 0"
  let ?e = "exampleEnv 1 (Inl SendError)"
  have c: "toDestBase exampleConverter (Fin 1000) = Fin 1000"
    by (simp add: exampleConverter_def)
  obtain h where h: "packetHandler (preparePacket exampleConverter (Fin (1 / 100)) ?s ?e (Fin 1000))
      = Some h"
    by (simp add: preparePacket_def registerPacketHandler_def logLine_def Let_def)
  have f: "secret ?e = [1, 2, 3]" "sha256 exampleConverter [1, 2, 3] = [3, 2, 1]"
    by (simp_all add: exampleEnv_def exampleConverter_def)
  have t: "\<lceil>(1000 :: rat) * (1 - 1 / 100)\<rceil> = 990"
    by simp
  have 1: "handlePacket exampleConverter h \<lparr>p_executionCondition = [3, 2, 1], p_amount = Fin 990\<rparr>
       = FulfillPacket [1, 2, 3]"
    using handlePacket_accepts_iff [OF c h, of "[3, 2, 1]" "Fin 990" 989] f t by simp
  have 2: "handlePacket exampleConverter h \<lparr>p_executionCondition = [3, 2, 1], p_amount = Fin 989\<rparr>
       = APPLICATION_ERROR"
    using handlePacket_accepts_iff [OF c h, of "[3, 2, 1]" "Fin 990" 989] f t by simp
  show ?thesis using h 1 2 by blast
qed

section \<open>Cleanup\<close>

text \<open>
  C8.  Whenever \<^verbatim>\<open>streamMoney\<close> settles, resolved or rejected, after a return, a
  \<^verbatim>\<open>Promise.reject()\<close> or a throw, the handler slot of the destination uplink is empty:
  the callback of \<^verbatim>\<open>finally\<close> deregisters on every exit.  (The witness is a send that
  throws: the loop leaves the handler of that packet registered, and \<^verbatim>\<open>finally\<close> removes
  it.)
\<close>

theorem streamMoney_deregisters:
  "streamMoney cv opts dateNow es = Some (p, s) \<Longrightarrow> packetHandler s = None"
proof -
  assume r: "streamMoney cv opts dateNow es = Some (p, s)"
  then obtain out s' where "s = onFinally s'"
    by (auto simp: streamMoney_def split: option.splits)
  then show ?thesis
    by (simp add: onFinally_def deregisterPacketHandler_def logLine_def)
qed

theorem streamMoney_deregisters_witness:
  "(\<exists>s. trySendPacket exampleConverter (slippageOf (exampleOpts 10))
            (startSession exampleConverter (exampleOpts 10) 0) [exampleEnv 1 (Inl SendError)]
          = Some (Thrown SendError, s) \<and> packetHandler s \<noteq> None)
   \<and> (\<exists>s. streamMoney exampleConverter (exampleOpts 10) 0 [exampleEnv 1 (Inl SendError)]
          = Some (Rejected (Some SendError), s) \<and> packetHandler s = None)"
proof -
  have "\<exists>s. streamMoney exampleConverter (exampleOpts 10) 0 [exampleEnv 1 (Inl SendError)]
          = Some (Rejected (Some SendError), s)"
    by (simp add: session_defs)
  then obtain s where s: "streamMoney exampleConverter (exampleOpts 10) 0
      [exampleEnv 1 (Inl SendError)] = Some (Rejected (Some SendError), s)" ..
  have "packetHandler s = None"
    using streamMoney_deregisters [OF s] .
  with s have 2: "\<exists>s. streamMoney exampleConverter (exampleOpts 10) 0 [exampleEnv 1 (Inl SendError)]
          = Some (Rejected (Some SendError), s) \<and> packetHandler s = None"
    by blast
  have 1: "\<exists>s. trySendPacket exampleConverter (slippageOf (exampleOpts 10))
            (startSession exampleConverter (exampleOpts 10) 0) [exampleEnv 1 (Inl SendError)]
          = Some (Thrown SendError, s) \<and> packetHandler s \<noteq> None"
    by (simp add: session_defs)
  from 1 2 show ?thesis by blast
qed

section \<open>Facts about rounding the quotients\<close>

lemma round_half_up_nonneg: "0 \<le> x \<Longrightarrow> 0 \<le> round_half_up dp x"
  by (simp add: round_half_up_def)

lemma round_half_up_upper: "0 \<le> x \<Longrightarrow> round_half_up dp x \<le> x + 1 / (2 * 10 ^ dp)"
proof -
  assume x: "0 \<le> x"
  have "of_int \<lfloor>x * 10 ^ dp + 1 / 2\<rfloor> \<le> x * 10 ^ dp + 1 / 2"
    by (rule of_int_floor_le)
  then have "of_int \<lfloor>x * 10 ^ dp + 1 / 2\<rfloor> / 10 ^ dp \<le> (x * 10 ^ dp + 1 / 2) / 10 ^ dp"
    by (simp add: divide_right_mono)
  also have "\<dots> = x + 1 / (2 * 10 ^ dp)"
    by (simp add: field_simps)
  finally show ?thesis using x by (simp add: round_half_up_def)
qed

lemma round_half_up_lower: "0 \<le> x \<Longrightarrow> x - 1 / (2 * 10 ^ dp) < round_half_up dp x"
proof -
  assume x: "0 \<le> x"
  have "x * 10 ^ dp + 1 / 2 < of_int \<lfloor>x * 10 ^ dp + 1 / 2\<rfloor> + 1"
    by linarith
  then have "x * 10 ^ dp - 1 / 2 < of_int \<lfloor>x * 10 ^ dp + 1 / 2\<rfloor>"
    by simp
  then have "(x * 10 ^ dp - 1 / 2) / 10 ^ dp < of_int \<lfloor>x * 10 ^ dp + 1 / 2\<rfloor> / 10 ^ dp"
    by (simp add: divide_strict_right_mono)
  moreover have "(x * 10 ^ dp - 1 / 2) / 10 ^ dp = x - 1 / (2 * 10 ^ dp)"
    by (simp add: field_simps)
  ultimately show ?thesis using x by (simp add: round_half_up_def)
qed

lemma round_half_up_of_int: "0 \<le> k \<Longrightarrow> round_half_up dp (of_int k) = of_int k"
proof -
  assume k: "0 \<le> k"
  have "(of_int k :: rat) * 10 ^ dp + 1 / 2 = of_int (k * 10 ^ dp) + 1 / 2"
    by simp
  moreover have "\<lfloor>(of_int (k * 10 ^ dp) :: rat) + 1 / 2\<rfloor> = k * 10 ^ dp"
    by linarith
  ultimately have "\<lfloor>(of_int k :: rat) * 10 ^ dp + 1 / 2\<rfloor> = k * 10 ^ dp"
    by simp
  then show ?thesis using k by (simp add: round_half_up_def)
qed

lemma round_half_up_mono:
  assumes "0 \<le> x" "x \<le> y"
  shows "round_half_up dp x \<le> round_half_up dp y"
proof -
  have "x * 10 ^ dp + 1 / 2 \<le> y * 10 ^ dp + 1 / 2"
    using assms by simp
  then have "\<lfloor>x * 10 ^ dp + 1 / 2\<rfloor> \<le> \<lfloor>y * 10 ^ dp + 1 / 2\<rfloor>"
    by (rule floor_mono)
  then have "(of_int \<lfloor>x * 10 ^ dp + 1 / 2\<rfloor> :: rat) / 10 ^ dp \<le> of_int \<lfloor>y * 10 ^ dp + 1 / 2\<rfloor> / 10 ^ dp"
    by (simp add: divide_right_mono)
  then show ?thesis using assms by (simp add: round_half_up_def)
qed

lemma round_half_up_ge_1: "1 \<le> x \<Longrightarrow> 1 \<le> round_half_up dp x"
  using round_half_up_mono [of 1 x dp] round_half_up_of_int [of 1 dp] by simp

lemma split_upper:
  fixes p r :: rat
  assumes p: "0 < p" and pr: "p \<le> r"
  defines "n \<equiv> \<lceil>round_half_up 20 (r / p)\<rceil>"
  defines "q \<equiv> \<lceil>round_half_up 20 (r / of_int n)\<rceil>"
  shows "1 \<le> n" and "0 \<le> q"
    and "of_int q < p / (1 - 1 / (2 * 10 ^ 20)) + 1 / (2 * 10 ^ 20) + 1"
proof -
  let ?e = "1 / (2 * 10 ^ 20) :: rat"
  have r: "0 < r" using p pr by simp
  have x1: "1 \<le> r / p" using p pr by simp
  have X1: "1 \<le> round_half_up 20 (r / p)" by (rule round_half_up_ge_1 [OF x1])
  have Xl: "r / p - ?e < round_half_up 20 (r / p)"
    using round_half_up_lower [of "r / p" 20] x1 by simp
  have nX: "round_half_up 20 (r / p) \<le> of_int n"
    unfolding n_def by (rule le_of_int_ceiling)
  show n1: "1 \<le> n"
  proof -
    have "(1 :: rat) \<le> of_int n" using X1 nX by linarith
    then show ?thesis by simp
  qed
  have npos: "(0 :: rat) < of_int n" using n1 by simp
  have nl: "r / p - ?e < of_int n" using Xl nX by linarith
  have y0: "0 \<le> r / of_int n" using r npos by simp
  show "0 \<le> q"
    unfolding q_def using round_half_up_nonneg [OF y0, of 20] by (simp add: ceiling_le_iff le_ceiling_iff)
  have d0: "0 < r - ?e * p"
  proof -
    have "?e * p \<le> ?e * r" using pr by simp
    also have "\<dots> < r" using r by simp
    finally show ?thesis by simp
  qed
  have "r / p - ?e = (r - ?e * p) / p" using p by (simp add: field_simps)
  then have nl': "(r - ?e * p) / p < of_int n" using nl by simp
  then have "r - ?e * p < of_int n * p" using p by (simp add: pos_divide_less_eq)
  then have "r * (1 - ?e) \<le> r - ?e * p \<and> r - ?e * p < of_int n * p"
    using pr by (simp add: algebra_simps)
  then have "r * (1 - ?e) < of_int n * p" by linarith
  then have "r / of_int n < p / (1 - ?e)"
    using npos by (simp add: field_simps)
  moreover have "round_half_up 20 (r / of_int n) \<le> r / of_int n + ?e"
    using round_half_up_upper [OF y0, of 20] by simp
  moreover have "of_int q < round_half_up 20 (r / of_int n) + 1"
    unfolding q_def by linarith
  ultimately show "of_int q < p / (1 - ?e) + ?e + 1" by linarith
qed

lemma cross_multiplied_le:
  fixes p r :: rat and k :: int and a b :: nat
  assumes p: "0 < p" and pr: "p \<le> r" and pk: "p \<le> of_int k"
    and ab: "a < b" and b: "b < 2 ^ 64"
  defines "n \<equiv> \<lceil>round_half_up 20 (r / p)\<rceil>"
  defines "q \<equiv> \<lceil>round_half_up 20 (r / of_int n)\<rceil>"
  shows "\<lfloor>(of_int q :: rat) * of_nat a / of_nat b\<rfloor> \<le> k"
proof (rule ccontr)
  assume "\<not> ?thesis"
  then have "k + 1 \<le> \<lfloor>(of_int q :: rat) * of_nat a / of_nat b\<rfloor>" by simp
  then have "(of_int (k + 1) :: rat) \<le> of_int q * of_nat a / of_nat b"
    by (simp only: le_floor_iff)
  then have 1: "(of_int k + 1) * (of_nat b :: rat) \<le> of_int q * of_nat a"
    using ab by (simp add: pos_le_divide_eq)
  have q0: "(0 :: rat) \<le> of_int q"
    using split_upper(2) [OF p pr] by (simp add: q_def n_def)
  have qu: "(of_int q :: rat) < p / (1 - 1 / (2 * 10 ^ 20)) + 1 / (2 * 10 ^ 20) + 1"
    using split_upper(3) [OF p pr] by (simp add: q_def n_def)
  have "(of_nat a :: rat) \<le> of_nat b - 1" using ab by (simp add: of_nat_diff Suc_le_eq flip: of_nat_Suc) 
  then have "(of_int q :: rat) * of_nat a \<le> of_int q * (of_nat b - 1)"
    using q0 by (rule mult_left_mono)
  with 1 have 2: "(of_int q :: rat) \<le> (of_int q - of_int k - 1) * of_nat b"
    by (simp add: algebra_simps)
  have bpos: "(0 :: rat) < of_nat b" using ab by simp
  have d0: "(0 :: rat) \<le> of_int q - of_int k - 1"
  proof (rule ccontr)
    assume "\<not> ?thesis"
    then have "(of_int q - of_int k - 1) * (of_nat b :: rat) < 0"
      using bpos by (simp add: mult_less_0_iff)
    with 2 q0 show False by linarith
  qed
  have "(of_nat b :: rat) \<le> 2 ^ 64 - 1"
  proof -
    have "b \<le> 2 ^ 64 - 1" using b by simp
    then have "(of_nat b :: rat) \<le> of_nat (2 ^ 64 - 1)" by (simp only: of_nat_le_iff)
    then show ?thesis by simp
  qed
  then have "(of_int q - of_int k - 1) * (of_nat b :: rat) \<le> (of_int q - of_int k - 1) * (2 ^ 64 - 1)"
    using d0 by (rule mult_left_mono)
  with 2 have 3: "(of_int q :: rat) \<le> (of_int q - of_int k - 1) * (2 ^ 64 - 1)" by linarith
  have "p / (1 - 1 / (2 * 10 ^ 20)) \<le> of_int k / (1 - 1 / (2 * 10 ^ 20))"
    using pk by (simp add: divide_right_mono)
  with qu have 4: "(of_int q :: rat) < of_int k / (1 - 1 / (2 * 10 ^ 20)) + 1 / (2 * 10 ^ 20) + 1"
    by linarith
  have k0: "(0 :: rat) \<le> of_int k" using p pk by linarith
  from 3 4 k0 show False by (simp add: field_simps)
qed

lemma ceiling_round_half_up_exact:
  fixes u v :: int
  assumes u: "0 \<le> u" and v: "0 < v" and vb: "v \<le> 2 * 10 ^ dp"
  shows "\<lceil>round_half_up dp (of_int u / of_int v)\<rceil> = \<lceil>(of_int u :: rat) / of_int v\<rceil>"
proof (cases "u mod v = 0")
  case True
  then have "u = (u div v) * v"
    by (metis add.right_neutral div_mult_mod_eq)
  then have "(of_int u :: rat) = of_int (u div v) * of_int v"
    by (metis of_int_mult)
  then have "(of_int u :: rat) / of_int v = of_int (u div v)"
    using v by simp
  moreover have "0 \<le> u div v" using u v by (simp add: pos_imp_zdiv_nonneg_iff)
  ultimately show ?thesis by (simp add: round_half_up_of_int)
next
  case False
  define f where "f = u div v"
  define t where "t = u mod v"
  have t: "1 \<le> t" "t < v" using False v by (simp_all add: t_def) (smt (verit) pos_mod_sign)
  have f0: "0 \<le> f" using u v by (simp add: f_def pos_imp_zdiv_nonneg_iff)
  have uv: "u = f * v + t" by (simp add: f_def t_def)
  define x :: rat where "x = of_int u / of_int v"
  have vpos: "(0 :: rat) < of_int v" using v by simp
  have xeq: "x = of_int f + of_int t / of_int v"
    using v by (simp add: x_def uv field_simps)
  have tv: "(0 :: rat) < of_int t / of_int v" "(of_int t :: rat) / of_int v < 1"
    using t v by simp_all
  have x0: "0 \<le> x" using u v by (simp add: x_def)
  have cx: "\<lceil>x\<rceil> = f + 1"
    using tv unfolding xeq by (simp add: ceiling_unique)
  have up: "round_half_up dp x \<le> of_int (f + 1)"
  proof -
    have "x \<le> of_int (f + 1)" using tv unfolding xeq by simp
    then have "round_half_up dp x \<le> round_half_up dp (of_int (f + 1))"
      by (rule round_half_up_mono [OF x0])
    then show ?thesis using f0 by (simp only: round_half_up_of_int)
  qed
  have lo: "of_int f < round_half_up dp x"
  proof -
    have "(1 :: rat) / 2 \<le> 10 ^ dp / of_int v"
    proof -
      have "(of_int v :: rat) \<le> of_int (2 * 10 ^ dp)" using vb by (simp only: of_int_le_iff)
      then have "(of_int v :: rat) \<le> 2 * 10 ^ dp" by simp
      then show ?thesis using vpos by (simp add: field_simps)
    qed
    also have "\<dots> \<le> of_int t * 10 ^ dp / of_int v"
    proof -
      have "(1 :: rat) \<le> of_int t" using t by simp
      then have "(1 :: rat) * (10 ^ dp / of_int v) \<le> of_int t * (10 ^ dp / of_int v)"
        using vpos by (intro mult_right_mono) simp_all
      then show ?thesis by simp
    qed
    finally have h: "(1 :: rat) / 2 \<le> of_int t * 10 ^ dp / of_int v" .
    have e: "x * 10 ^ dp = of_int f * 10 ^ dp + of_int t * 10 ^ dp / of_int v"
      unfolding xeq by (simp add: distrib_right)
    have c: "(of_int (f * 10 ^ dp + 1) :: rat) = of_int f * 10 ^ dp + 1"
      by simp
    have "of_int (f * 10 ^ dp + 1) \<le> x * 10 ^ dp + 1 / 2"
      unfolding c e using h by linarith
    then have "f * 10 ^ dp + 1 \<le> \<lfloor>x * 10 ^ dp + 1 / 2\<rfloor>"
      by (simp only: le_floor_iff)
    then have "(of_int (f * 10 ^ dp + 1) :: rat) \<le> of_int \<lfloor>x * 10 ^ dp + 1 / 2\<rfloor>"
      by (simp only: of_int_le_iff)
    then have "(of_int (f * 10 ^ dp + 1) :: rat) / 10 ^ dp \<le> round_half_up dp x"
      using x0 by (simp add: round_half_up_def divide_right_mono)
    moreover have "(of_int f :: rat) < of_int (f * 10 ^ dp + 1) / 10 ^ dp"
      by (simp add: field_simps)
    ultimately show ?thesis by linarith
  qed
  have "\<lceil>round_half_up dp x\<rceil> = f + 1"
    using up lo by (intro ceiling_unique) simp_all
  then show ?thesis using cx by (simp add: x_def)
qed

section \<open>Facts about the reader and the packet amount\<close>

lemma uintBE_snoc: "uintBE (bs @ [b]) = uintBE bs * 256 + unat b"
  by (simp add: uintBE_def)

lemma uintBE_bound: "uintBE bs < 256 ^ length bs"
proof (induction bs rule: rev_induct)
  case Nil
  show ?case by (simp add: uintBE_def)
next
  case (snoc b bs)
  have "unat b < 2 ^ LENGTH(8)" by (rule unsigned_less)
  then have "unat b < 256" by simp
  then have "uintBE bs * 256 + unat b < (uintBE bs + 1) * 256" by simp
  also have "\<dots> \<le> 256 ^ length bs * 256"
    using snoc.IH by (intro mult_right_mono) simp_all
  finally show ?case by (simp add: uintBE_snoc)
qed

lemma uintBE_take8: "uintBE (take 8 bs) < 2 ^ 64"
proof -
  have "uintBE (take 8 bs) < 256 ^ length (take 8 bs)" by (rule uintBE_bound)
  also have "\<dots> \<le> (256 :: nat) ^ 8" by (intro power_increasing) simp_all
  finally show ?thesis by simp
qed

lemma bn_min3_Fin:
  assumes a: "\<not> bn_lte a (Fin 0)" "a \<noteq> NaN" and r: "0 < r" and m: "maxOk m"
  shows "\<exists>p. bn_min a [Fin r, m] = Fin p \<and> 0 \<le> p \<and> p \<le> r
            \<and> (\<forall>k. m = Fin k \<longrightarrow> p \<le> k) \<and> (\<forall>a'. a = Fin a' \<longrightarrow> p \<le> a')
            \<and> (a = Fin p \<or> p = r \<or> m = Fin p)"
  using assms by (cases a; cases m) (auto simp: bn_min_def maxOk_def)

lemma packetAmountFor_pos:
  assumes "bn_min a [Fin r, m] = Fin p" "0 < p" "p \<le> r"
  shows "packetAmountFor a (Fin r) m
         = Fin (of_int \<lceil>round_half_up 20 (r / of_int \<lceil>round_half_up 20 (r / p)\<rceil>)\<rceil>)"
proof -
  define n where "n = \<lceil>round_half_up 20 (r / p)\<rceil>"
  have "1 \<le> n"
    using split_upper(1) [of p r] assms by (simp add: n_def)
  then have n: "(of_int n :: rat) \<noteq> 0" by simp
  have rp: "r \<noteq> 0" "p \<noteq> 0" using assms by auto
  have 1: "bn_ceil (bn_div (Fin r) (Fin p)) = Fin (of_int n)"
    using rp by (simp add: bn_div_def DECIMAL_PLACES_def n_def)
  have 2: "bn_ceil (bn_div (Fin r) (Fin (of_int n))) = Fin (of_int \<lceil>round_half_up 20 (r / of_int n)\<rceil>)"
    using rp n by (simp add: bn_div_def DECIMAL_PLACES_def)
  show ?thesis
    unfolding packetAmountFor_def Let_def assms(1) 1 2 by (simp add: n_def)
qed

lemma packetAmountFor_zero:
  assumes "bn_min a [Fin r, m] = Fin 0" "0 < r"
  shows "packetAmountFor a (Fin r) m = Fin 0"
  using assms by (simp add: packetAmountFor_def Let_def bn_div_def bn_inf_def)

lemma packetAmountFor_NaN:
  assumes "a = NaN \<or> R = NaN"
  shows "packetAmountFor a R m = NaN"
  using assms by (cases a; cases R; cases m) (auto simp: packetAmountFor_def Let_def bn_div_def bn_min_def)

lemma packetAmountFor_PInf:
  assumes "\<not> bn_lte a (Fin 0)" "maxOk m"
  shows "packetAmountFor a PInf m = NaN"
  using assms by (cases a; cases m) (auto simp: packetAmountFor_def Let_def bn_div_def bn_min_def bn_inf_def maxOk_def)

text \<open>The packet amount of an iteration whose checks let a packet through.\<close>

lemma packetAmountFor_shape:
  assumes R: "\<not> bn_isZero R" "\<not> bn_lte R (Fin 0)" and a: "\<not> bn_lte a (Fin 0)" and m: "maxOk m"
  shows "packetAmountFor a R m = NaN
       \<or> (\<exists>j. packetAmountFor a R m = Fin (of_int j) \<and> 0 \<le> j
              \<and> (\<forall>k x y. m = Fin (of_int k) \<longrightarrow> x < y \<longrightarrow> y < 2 ^ 64 \<longrightarrow>
                    \<lfloor>(of_int j :: rat) * of_nat x / of_nat y\<rfloor> \<le> k))"
proof (cases "a = NaN \<or> R = NaN")
  case True
  then show ?thesis by (simp add: packetAmountFor_NaN)
next
  case False
  show ?thesis
  proof (cases R)
    case (Fin r)
    then have r: "0 < r" using R by simp
    obtain p where p: "bn_min a [Fin r, m] = Fin p" "0 \<le> p" "p \<le> r" "\<forall>k. m = Fin k \<longrightarrow> p \<le> k"
      using bn_min3_Fin [OF a _ r m] False by blast
    show ?thesis
    proof (cases "p = 0")
      case True
      then have "packetAmountFor a R m = Fin (of_int 0)"
        using packetAmountFor_zero [of a r m] p r Fin by simp
      moreover have "\<lfloor>(of_int 0 :: rat) * of_nat x / of_nat y\<rfloor> \<le> k" if "m = Fin (of_int k)" for k and x y :: nat
      proof -
        have "(0 :: rat) \<le> of_int k" using p(4) that True by simp
        then show ?thesis by simp
      qed
      ultimately show ?thesis by blast
    next
      case False
      then have pp: "0 < p" using p by simp
      define j where "j = \<lceil>round_half_up 20 (r / of_int \<lceil>round_half_up 20 (r / p)\<rceil>)\<rceil>"
      have q: "packetAmountFor a R m = Fin (of_int j)"
        using packetAmountFor_pos [OF p(1) pp p(3)] Fin by (simp add: j_def)
      have j0: "0 \<le> j" using split_upper(2) [OF pp p(3)] by (simp add: j_def)
      have "\<lfloor>(of_int j :: rat) * of_nat x / of_nat y\<rfloor> \<le> k"
        if "m = Fin (of_int k)" "x < y" "y < 2 ^ 64" for k and x y :: nat
        unfolding j_def using cross_multiplied_le [OF pp p(3) _ that(2,3), of k] p(4) that(1) by simp
      with q j0 show ?thesis by blast
    qed
  next
    case PInf
    then show ?thesis using packetAmountFor_PInf [OF a m] by simp
  next
    case NInf
    then show ?thesis using R by simp
  next
    case NaN
    then show ?thesis using False by simp
  qed
qed

section \<open>Facts about the reaction to a reject\<close>

lemma round_down_nonneg_div:
  assumes "0 \<le> u" "0 < v"
  shows "round_down (of_int u / of_int v) = of_int (u div v)"
proof -
  have "(0 :: rat) \<le> of_int u / of_int v" using assms by simp
  then show ?thesis by (simp add: round_down_def floor_divide_of_int_eq)
qed

text \<open>The new maximum that an F08 reject with a non-zero received amount yields.\<close>

lemma newMax_div:
  assumes j: "0 \<le> j" and fr: "0 < fr"
  shows "bn_dividedToIntegerBy (bn_times (Fin (of_int j)) (Fin (of_nat fm))) (Fin (of_nat fr))
         = Fin (of_int ((j * int fm) div int fr))"
proof (cases "j * int fm = 0")
  case True
  then have "(of_int j :: rat) * of_nat fm = 0"
    by (metis of_int_0 of_int_mult of_int_of_nat_eq)
  moreover have "(j * int fm) div int fr = 0" by (simp only: True div_0)
  ultimately show ?thesis using fr by (simp add: bn_dividedToIntegerBy_def)
next
  case False
  then have nz: "(of_int j :: rat) * of_nat fm \<noteq> 0" by auto
  have "round_down (of_int (j * int fm) / of_int (int fr)) = of_int ((j * int fm) div int fr)"
    using j fr by (intro round_down_nonneg_div) simp_all
  then show ?thesis using fr nz by (simp add: bn_dividedToIntegerBy_def)
qed

lemma onReject_other:
  "code \<noteq> ''F08'' \<Longrightarrow> onReject s n q code data = Inr (logLine (LogRejected n code) s)"
  by (simp add: onReject_def Let_def)

lemma onReject_F08_short:
  "length data < 16 \<Longrightarrow> onReject s n q ''F08'' data = Inl ReadError"
  by (auto simp: onReject_def Let_def readUInt64BigNum_def split: option.splits)

lemma onReject_F08:
  assumes "16 \<le> length data"
  shows "onReject s n q ''F08'' data =
     (let newMaxPacketAmount =
            bn_dividedToIntegerBy (bn_times q (Fin (of_nat (uintBE (take 8 (drop 8 data))))))
              (Fin (of_nat (uintBE (take 8 data))))
      in if bn_gte newMaxPacketAmount q
         then Inr (logLine LogUnexpectedAmountTooLarge (logLine (LogRejected n ''F08'') s))
         else if bn_lt newMaxPacketAmount q
         then Inr ((logLine (LogReducing q (maxPacketAmount s)) (logLine (LogRejected n ''F08'') s))
                     \<lparr>maxPacketAmount := newMaxPacketAmount\<rparr>)
         else Inr (logLine (LogRejected n ''F08'') s))"
  using assms by (simp add: onReject_def Let_def readUInt64BigNum_def logLine_def)

lemma onReject_F08_whole:
  assumes len: "16 \<le> length data" and j: "0 \<le> j" and fr: "0 < uintBE (take 8 data)"
  shows "onReject s n (Fin (of_int j)) ''F08'' data =
     (if j \<le> (j * int (uintBE (take 8 (drop 8 data)))) div int (uintBE (take 8 data))
      then Inr (logLine LogUnexpectedAmountTooLarge (logLine (LogRejected n ''F08'') s))
      else Inr ((logLine (LogReducing (Fin (of_int j)) (maxPacketAmount s))
                   (logLine (LogRejected n ''F08'') s))
                  \<lparr>maxPacketAmount :=
                     Fin (of_int ((j * int (uintBE (take 8 (drop 8 data))))
                                   div int (uintBE (take 8 data))))\<rparr>))"
  unfolding onReject_F08 [OF len] newMax_div [OF j fr] by (simp add: Let_def)

lemma bn_lte_maxOk_refl: "maxOk m \<Longrightarrow> bn_lte m m"
  by (cases m) (simp_all add: maxOk_def)

lemma bn_lte_maxOk_trans: "bn_lte x y \<Longrightarrow> bn_lte y z \<Longrightarrow> bn_lte x z"
  by (cases x; cases y; cases z) simp_all

lemma onReject_max:
  assumes m: "maxOk (maxPacketAmount s)"
    and q: "q = NaN \<or> (\<exists>j. q = Fin (of_int j) \<and> 0 \<le> j
              \<and> (\<forall>k x y. maxPacketAmount s = Fin (of_int k) \<longrightarrow> x < y \<longrightarrow> y < 2 ^ 64 \<longrightarrow>
                    \<lfloor>(of_int j :: rat) * of_nat x / of_nat y\<rfloor> \<le> k))"
    and r: "onReject s n q code data = Inr s'"
  shows "maxOk (maxPacketAmount s') \<and> bn_lte (maxPacketAmount s') (maxPacketAmount s)"
proof (cases "code = ''F08''")
  case False
  then show ?thesis using r m by (auto simp: onReject_other logLine_def bn_lte_maxOk_refl)
next
  case True
  have len: "16 \<le> length data"
    using r True onReject_F08_short [of data s n q] by (cases "length data < 16") auto
  define fr where "fr = uintBE (take 8 data)"
  define fm where "fm = uintBE (take 8 (drop 8 data))"
  have frb: "fr < 2 ^ 64" unfolding fr_def by (rule uintBE_take8)
  show ?thesis
  proof (cases "q = NaN")
    case True
    then show ?thesis
      using r m \<open>code = ''F08''\<close>
      by (auto simp: onReject_F08 [OF len] bn_dividedToIntegerBy_def logLine_def bn_lte_maxOk_refl)
  next
    case False
    then obtain j where j: "q = Fin (of_int j)" "0 \<le> j"
      and b: "\<And>k x y. maxPacketAmount s = Fin (of_int k) \<Longrightarrow> x < y \<Longrightarrow> y < 2 ^ 64 \<Longrightarrow>
                    \<lfloor>(of_int j :: rat) * of_nat x / of_nat y\<rfloor> \<le> k"
      using q by blast
    show ?thesis
    proof (cases "fr = 0")
      case True
      have "bn_dividedToIntegerBy (bn_times q (Fin (of_nat fm))) (Fin (of_nat fr)) = PInf
          \<or> bn_dividedToIntegerBy (bn_times q (Fin (of_nat fm))) (Fin (of_nat fr)) = NaN"
        using True j by (auto simp: bn_dividedToIntegerBy_def bn_inf_def mult_less_0_iff)
      then show ?thesis
        using r m \<open>code = ''F08''\<close> j
        by (auto simp: onReject_F08 [OF len] Let_def logLine_def bn_lte_maxOk_refl
            simp flip: fr_def fm_def)
    next
      case False
      then have fr0: "0 < uintBE (take 8 data)" by (simp add: fr_def)
      define new where "new = (j * int fm) div int fr"
      have new0: "0 \<le> new" using j False by (simp add: new_def pos_imp_zdiv_nonneg_iff)
      show ?thesis
      proof (cases "j \<le> new")
        case True
        then show ?thesis
          using r m \<open>code = ''F08''\<close> j
          by (auto simp: onReject_F08_whole [OF len j(2) fr0] logLine_def bn_lte_maxOk_refl
              simp flip: fr_def fm_def new_def)
      next
        case lt: False
        have s': "maxPacketAmount s' = Fin (of_int new)"
          using r \<open>code = ''F08''\<close> j lt
          by (auto simp: onReject_F08_whole [OF len j(2) fr0] logLine_def
              simp flip: fr_def fm_def new_def)
        have ok: "maxOk (Fin (of_int new))" using new0 by (simp add: maxOk_def)
        have fmfr: "fm < fr"
        proof (rule ccontr)
          assume "\<not> fm < fr"
          then have "int fr \<le> int fm" by simp
          then have "j * int fr \<le> j * int fm" using j by (intro mult_left_mono) simp_all
          then have "(j * int fr) div int fr \<le> (j * int fm) div int fr"
            by (intro zdiv_mono1) (use False in simp_all)
          then have "j \<le> new" using False by (simp add: new_def)
          with lt show False by simp
        qed
        have le: "bn_lte (Fin (of_int new)) (maxPacketAmount s)"
        proof (cases "maxPacketAmount s")
          case (Fin k')
          then have k': "k' = of_int \<lfloor>k'\<rfloor>" using m by (simp add: maxOk_def)
          then have "maxPacketAmount s = Fin (of_int \<lfloor>k'\<rfloor>)" using Fin by simp
          then have "\<lfloor>(of_int j :: rat) * of_nat fm / of_nat fr\<rfloor> \<le> \<lfloor>k'\<rfloor>"
            using b fmfr frb by blast
          moreover have "\<lfloor>(of_int j :: rat) * of_nat fm / of_nat fr\<rfloor> = new"
            using floor_divide_of_int_eq [of "j * int fm" "int fr", where ?'a = rat]
            by (simp add: new_def)
          ultimately have "(of_int new :: rat) \<le> of_int \<lfloor>k'\<rfloor>" by simp
          then show ?thesis using Fin k' by simp
        next
          case PInf
          then show ?thesis by simp
        next
          case NInf
          then show ?thesis using m by (simp add: maxOk_def)
        next
          case NaN
          then show ?thesis using m by (simp add: maxOk_def)
        qed
        show ?thesis using s' ok le by simp
      qed
    qed
  qed
qed

section \<open>Facts about one call of trySendPacket\<close>

text \<open>The ways through one call of \<^verbatim>\<open>trySendPacket\<close>.\<close>

lemma attempt_cases [case_names timedOut succeeded sentTooMuch outgoing incoming wait send]:
  fixes cv sl s e
  defines "R \<equiv> bn_minus (amountToSend s) (totalFulfilled s)"
  defines "a \<equiv> toSourceBase cv (availableToDebit e)"
  obtains
    "timeout s < now e" "attempt cv sl s e = Done TimedOut (logLine LogTimedOut s)"
  | "now e \<le> timeout s" "bn_isZero R"
    "attempt cv sl s e = Done Succeeded (logLine (LogSucceeded (format cv (amountToSend s))) s)"
  | "now e \<le> timeout s" "\<not> bn_isZero R" "bn_lte R (Fin 0)"
    "attempt cv sl s e
     = Done SentTooMuch
         (logLine (LogSentTooMuch (format cv (bn_negated R)) (format cv (amountToSend s))) s)"
  | "now e \<le> timeout s" "\<not> bn_isZero R" "\<not> bn_lte R (Fin 0)"
    "bn_gt (toSourceExchange cv R) (availableToSend e)"
    "attempt cv sl s e
     = Done InsufficientOutgoing (logLine (LogInsufficientOutgoing (format cv R)) s)"
  | "now e \<le> timeout s" "\<not> bn_isZero R" "\<not> bn_lte R (Fin 0)"
    "\<not> bn_gt (toSourceExchange cv R) (availableToSend e)"
    "bn_gt (toDestExchange cv R) (availableToReceive e)"
    "attempt cv sl s e
     = Done InsufficientIncoming (logLine (LogInsufficientIncoming (format cv R)) s)"
  | "now e \<le> timeout s" "\<not> bn_isZero R" "\<not> bn_lte R (Fin 0)" "bn_lte a (Fin 0)"
    "attempt cv sl s e = Next s"
  | "now e \<le> timeout s" "\<not> bn_isZero R" "\<not> bn_lte R (Fin 0)"
    "\<not> bn_gt (toSourceExchange cv R) (availableToSend e)"
    "\<not> bn_gt (toDestExchange cv R) (availableToReceive e)"
    "\<not> bn_lte a (Fin 0)"
    "attempt cv sl s e = sendOne cv sl s e (packetAmountFor a R (maxPacketAmount s))"
proof -
  have R: "bn_minus (amountToSend s) (totalFulfilled s) = R" by (simp add: R_def)
  have a: "toSourceBase cv (availableToDebit e) = a" by (simp add: a_def)
  note eq = attempt_def [of cv sl s e, unfolded Let_def R a]
  show thesis
  proof (cases "timeout s < now e")
    case True
    then show ?thesis using that(1) by (simp add: eq)
  next
    case t: False
    show ?thesis
    proof (cases "bn_isZero R")
      case True
      then show ?thesis using that(2) t by (simp add: eq)
    next
      case z: False
      show ?thesis
      proof (cases "bn_lte R (Fin 0)")
        case True
        then show ?thesis using that(3) t z by (simp add: eq)
      next
        case n: False
        show ?thesis
        proof (cases "bn_gt (toSourceExchange cv R) (availableToSend e)")
          case True
          then show ?thesis using that(4) t z n by (simp add: eq)
        next
          case o: False
          show ?thesis
          proof (cases "bn_gt (toDestExchange cv R) (availableToReceive e)")
            case True
            then show ?thesis using that(5) t z n o by (simp add: eq)
          next
            case i: False
            show ?thesis
            proof (cases "bn_lte a (Fin 0)")
              case True
              then show ?thesis using that(6) t z n o i by (simp add: eq)
            next
              case False
              then show ?thesis using that(7) t z n o i by (simp add: eq)
            qed
          qed
        qed
      qed
    qed
  qed
qed

lemma preparePacket_fields [simp]:
  "amountToSend (preparePacket cv sl s e q) = amountToSend s"
  "timeout (preparePacket cv sl s e q) = timeout s"
  "prepareCount (preparePacket cv sl s e q) = prepareCount s + 1"
  "fulfillCount (preparePacket cv sl s e q) = fulfillCount s"
  "totalFulfilled (preparePacket cv sl s e q) = totalFulfilled s"
  "maxPacketAmount (preparePacket cv sl s e q) = maxPacketAmount s"
  "logs (preparePacket cv sl s e q) = logs s @ [LogSending (prepareCount s + 1) q]"
  by (simp_all add: preparePacket_def registerPacketHandler_def logLine_def Let_def)

lemma logLine_fields [simp]:
  "amountToSend (logLine l s) = amountToSend s"
  "timeout (logLine l s) = timeout s"
  "prepareCount (logLine l s) = prepareCount s"
  "fulfillCount (logLine l s) = fulfillCount s"
  "totalFulfilled (logLine l s) = totalFulfilled s"
  "maxPacketAmount (logLine l s) = maxPacketAmount s"
  "packetHandler (logLine l s) = packetHandler s"
  "logs (logLine l s) = logs s @ [l]"
  by (simp_all add: logLine_def)

lemma deregisterPacketHandler_fields [simp]:
  "amountToSend (deregisterPacketHandler s) = amountToSend s"
  "timeout (deregisterPacketHandler s) = timeout s"
  "prepareCount (deregisterPacketHandler s) = prepareCount s"
  "fulfillCount (deregisterPacketHandler s) = fulfillCount s"
  "totalFulfilled (deregisterPacketHandler s) = totalFulfilled s"
  "maxPacketAmount (deregisterPacketHandler s) = maxPacketAmount s"
  "packetHandler (deregisterPacketHandler s) = None"
  "logs (deregisterPacketHandler s) = logs s"
  by (simp_all add: deregisterPacketHandler_def)

lemma onFulfill_fields [simp]:
  "amountToSend (onFulfill cv s n q t) = amountToSend s"
  "timeout (onFulfill cv s n q t) = t + IDLE_TIMEOUT"
  "prepareCount (onFulfill cv s n q t) = prepareCount s"
  "fulfillCount (onFulfill cv s n q t) = fulfillCount s + 1"
  "totalFulfilled (onFulfill cv s n q t) = bn_plus (totalFulfilled s) q"
  "maxPacketAmount (onFulfill cv s n q t) = maxPacketAmount s"
  "logs (onFulfill cv s n q t) = logs s @ [LogFulfilled n (format cv q)]"
  by (simp_all add: onFulfill_def bumpIdle_def logLine_def Let_def)

text \<open>A reject changes the maximum packet amount and the log only.\<close>

lemma onReject_fields:
  assumes "onReject s n q code data = Inr s'"
  shows "amountToSend s' = amountToSend s" "timeout s' = timeout s"
    "prepareCount s' = prepareCount s" "fulfillCount s' = fulfillCount s"
    "totalFulfilled s' = totalFulfilled s" "packetHandler s' = packetHandler s"
    "\<exists>ls. logs s' = logs s @ LogRejected n code # ls \<and> sentAmounts ls = []"
proof -
  have "s' = logLine (LogRejected n code) s
      \<or> s' = logLine LogUnexpectedAmountTooLarge (logLine (LogRejected n code) s)
      \<or> (\<exists>m. s' = (logLine (LogReducing q (maxPacketAmount s)) (logLine (LogRejected n code) s))
                     \<lparr>maxPacketAmount := m\<rparr>)"
  proof (cases "code = ''F08''")
    case False
    then show ?thesis using assms by (simp add: onReject_other)
  next
    case True
    have len: "16 \<le> length data"
      using assms True onReject_F08_short [of data s n q] by (cases "length data < 16") auto
    show ?thesis
      using assms True by (auto simp: onReject_F08 [OF len] Let_def split: if_splits)
  qed
  then show "amountToSend s' = amountToSend s" "timeout s' = timeout s"
    "prepareCount s' = prepareCount s" "fulfillCount s' = fulfillCount s"
    "totalFulfilled s' = totalFulfilled s" "packetHandler s' = packetHandler s"
    "\<exists>ls. logs s' = logs s @ LogRejected n code # ls \<and> sentAmounts ls = []"
    by auto
qed

text \<open>The ways through the sending of one packet.\<close>

lemma sendOne_cases [case_names threw unreadable rejected fulfilled]:
  fixes cv sl s e q
  defines "s3 \<equiv> preparePacket cv sl s e q"
  obtains
    t where "reply e = Inl t" "sendOne cv sl s e q = Done (Thrown t) s3"
  | code data where "reply e = Inr (IlpReject code data)" "code = ''F08''" "length data < 16"
      "sendOne cv sl s e q
       = Done (Thrown ReadError) (logLine (LogRejected (prepareCount s + 1) code) s3)"
  | code data s4 where "reply e = Inr (IlpReject code data)"
      "onReject s3 (prepareCount s + 1) q code data = Inr s4"
      "sendOne cv sl s e q = Next (deregisterPacketHandler s4)"
  | f d where "reply e = Inr (IlpFulfill f d)"
      "sendOne cv sl s e q
       = Next (deregisterPacketHandler (onFulfill cv s3 (prepareCount s + 1) q (fulfilledAt e)))"
proof (cases "reply e")
  case (Inl t)
  then show ?thesis using that(1) by (simp add: sendOne_def s3_def Let_def)
next
  case (Inr r)
  show ?thesis
  proof (cases r)
    case (IlpFulfill f d)
    then show ?thesis using that(4) Inr by (simp add: sendOne_def s3_def Let_def)
  next
    case (IlpReject code data)
    show ?thesis
    proof (cases "onReject s3 (prepareCount s + 1) q code data")
      case (Inl t)
      have "code = ''F08'' \<and> length data < 16 \<and> t = ReadError"
      proof (cases "code = ''F08''")
        case False
        then show ?thesis using Inl by (simp add: onReject_other)
      next
        case True
        show ?thesis
        proof (cases "length data < 16")
          case True
          then show ?thesis using Inl \<open>code = ''F08''\<close> by (simp add: onReject_F08_short)
        next
          case False
          then have "16 \<le> length data" by simp
          then show ?thesis
            using Inl \<open>code = ''F08''\<close> by (simp add: onReject_F08 Let_def split: if_splits)
        qed
      qed
      then show ?thesis
        using that(2) Inr IlpReject Inl by (simp add: sendOne_def s3_def Let_def)
    next
      case (Inr s4)
      then show ?thesis
        using that(3) \<open>reply e = Inr r\<close> IlpReject by (simp add: sendOne_def s3_def Let_def)
    qed
  qed
qed


section \<open>The maximum packet amount\<close>

lemma sendOne_max:
  assumes m: "maxOk (maxPacketAmount s)"
    and q: "q = NaN \<or> (\<exists>j. q = Fin (of_int j) \<and> 0 \<le> j
              \<and> (\<forall>k x y. maxPacketAmount s = Fin (of_int k) \<longrightarrow> x < y \<longrightarrow> y < 2 ^ 64 \<longrightarrow>
                    \<lfloor>(of_int j :: rat) * of_nat x / of_nat y\<rfloor> \<le> k))"
  shows "maxOk (maxPacketAmount (stateOf (sendOne cv sl s e q)))
       \<and> bn_lte (maxPacketAmount (stateOf (sendOne cv sl s e q))) (maxPacketAmount s)"
proof (cases rule: sendOne_cases [where cv = cv and sl = sl and s = s and e = e and q = q])
  case (threw t)
  then show ?thesis using m by (simp add: bn_lte_maxOk_refl)
next
  case (unreadable code data)
  then show ?thesis using m by (simp add: bn_lte_maxOk_refl)
next
  case (rejected code data s4)
  have "maxOk (maxPacketAmount s4)
      \<and> bn_lte (maxPacketAmount s4) (maxPacketAmount (preparePacket cv sl s e q))"
    using m q by (intro onReject_max [OF _ _ rejected(2)]) simp_all
  then show ?thesis using rejected(3) by simp
next
  case (fulfilled f d)
  then show ?thesis using m by (simp add: bn_lte_maxOk_refl)
qed

lemma attempt_max:
  assumes m: "maxOk (maxPacketAmount s)"
  shows "maxOk (maxPacketAmount (stateOf (attempt cv sl s e)))
       \<and> bn_lte (maxPacketAmount (stateOf (attempt cv sl s e))) (maxPacketAmount s)"
proof (cases rule: attempt_cases [where cv = cv and sl = sl and s = s and e = e])
  case send
  show ?thesis
    unfolding send(7)
    by (rule sendOne_max [OF m packetAmountFor_shape [OF send(2,3,6) m]])
qed (use m in \<open>simp_all add: bn_lte_maxOk_refl\<close>)

lemma trySendPacket_sessionAfter:
  "trySendPacket cv sl s es = Some (out, s') \<Longrightarrow> sessionAfter cv sl s es = s'"
  by (induction es arbitrary: s) (auto split: step.splits option.splits)

lemma sessionAfter_append:
  "sessionAfter cv sl s (es @ es') =
     (case trySendPacket cv sl s es of
        None \<Rightarrow> sessionAfter cv sl (sessionAfter cv sl s es) es'
      | Some r \<Rightarrow> sessionAfter cv sl s es)"
  by (induction es arbitrary: s) (auto split: step.splits option.splits)

lemma trySendPacket_append:
  "trySendPacket cv sl s (es @ es') =
     (case trySendPacket cv sl s es of
        None \<Rightarrow> trySendPacket cv sl (sessionAfter cv sl s es) es'
      | Some r \<Rightarrow> Some r)"
  by (induction es arbitrary: s) (auto split: step.splits option.splits)

lemma sessionAfter_Cons:
  "sessionAfter cv sl s (e # es) =
     (case attempt cv sl s e of Done out s' \<Rightarrow> s' | Next s' \<Rightarrow> sessionAfter cv sl s' es)"
  by simp

lemma sessionAfter_max:
  "maxOk (maxPacketAmount s) \<Longrightarrow>
     maxOk (maxPacketAmount (sessionAfter cv sl s es))
     \<and> bn_lte (maxPacketAmount (sessionAfter cv sl s es)) (maxPacketAmount s)"
proof (induction es arbitrary: s)
  case Nil
  then show ?case by (simp add: bn_lte_maxOk_refl)
next
  case (Cons e es)
  have a: "maxOk (maxPacketAmount (stateOf (attempt cv sl s e)))"
    "bn_lte (maxPacketAmount (stateOf (attempt cv sl s e))) (maxPacketAmount s)"
    using attempt_max [OF Cons.prems] by simp_all
  show ?case
  proof (cases "attempt cv sl s e")
    case (Done out s')
    then show ?thesis using a by simp
  next
    case (Next s')
    then have "maxOk (maxPacketAmount s')" "bn_lte (maxPacketAmount s') (maxPacketAmount s)"
      using a by simp_all
    then show ?thesis
      using Cons.IH [of s'] Next by (auto intro: bn_lte_maxOk_trans)
  qed
qed

lemma startSession_maxOk: "maxOk (maxPacketAmount (startSession cv opts t))"
  by (simp add: startSession_def bumpIdle_def maxOk_def)

text \<open>
  C2, as the code has it.  On a reject with code F08 whose payload holds the two amounts,
  the session computes the new maximum as the packet amount times the foreign maximum,
  divided to an integer by the foreign received amount.  When the new maximum is at least
  the packet amount, the maximum packet amount is left as it is and the anomaly is logged;
  when the new maximum is below the packet amount, the maximum packet amount becomes the
  new maximum; when neither comparison holds (the new maximum is not a number), the maximum
  packet amount is left as it is and nothing more is logged.  For a whole, non-negative
  packet amount and a received amount that is not zero the new maximum is the quotient
  rounded down (\<open>div\<close> on the integers), and one of the first two cases applies.
  Consequently, over any calls \<open>es\<close> of a session and any further calls \<open>es'\<close>, whatever
  the replies, the maximum packet amount after \<open>es @ es'\<close> is at most the one after \<open>es\<close>:
  it is never raised.
\<close>

theorem maxPacketAmount_never_raised:
  "(16 \<le> length data \<longrightarrow>
      onReject s n q ''F08'' data =
       (let newMaxPacketAmount =
              bn_dividedToIntegerBy (bn_times q (Fin (of_nat (uintBE (take 8 (drop 8 data))))))
                (Fin (of_nat (uintBE (take 8 data))))
        in if bn_gte newMaxPacketAmount q
           then Inr (logLine LogUnexpectedAmountTooLarge (logLine (LogRejected n ''F08'') s))
           else if bn_lt newMaxPacketAmount q
           then Inr ((logLine (LogReducing q (maxPacketAmount s))
                        (logLine (LogRejected n ''F08'') s))
                       \<lparr>maxPacketAmount := newMaxPacketAmount\<rparr>)
           else Inr (logLine (LogRejected n ''F08'') s)))
   \<and> (16 \<le> length data \<and> 0 < uintBE (take 8 data) \<and> 0 \<le> j \<longrightarrow>
      onReject s n (Fin (of_int j)) ''F08'' data =
       (if j \<le> (j * int (uintBE (take 8 (drop 8 data)))) div int (uintBE (take 8 data))
        then Inr (logLine LogUnexpectedAmountTooLarge (logLine (LogRejected n ''F08'') s))
        else Inr ((logLine (LogReducing (Fin (of_int j)) (maxPacketAmount s))
                     (logLine (LogRejected n ''F08'') s))
                    \<lparr>maxPacketAmount :=
                       Fin (of_int ((j * int (uintBE (take 8 (drop 8 data))))
                                     div int (uintBE (take 8 data))))\<rparr>)))
   \<and> bn_lte (maxPacketAmount (sessionAfter cv sl (startSession cv opts t) (es @ es')))
        (maxPacketAmount (sessionAfter cv sl (startSession cv opts t) es))"
proof -
  let ?init = "startSession cv opts t"
  have ok: "maxOk (maxPacketAmount (sessionAfter cv sl ?init es))"
    using sessionAfter_max [OF startSession_maxOk] by blast
  have mono: "bn_lte (maxPacketAmount (sessionAfter cv sl ?init (es @ es')))
        (maxPacketAmount (sessionAfter cv sl ?init es))"
  proof (cases "trySendPacket cv sl ?init es")
    case None
    then show ?thesis
      using sessionAfter_max [OF ok, of cv sl es'] by (simp add: sessionAfter_append)
  next
    case (Some r)
    then show ?thesis using ok by (simp add: sessionAfter_append bn_lte_maxOk_refl)
  qed
  have step: "onReject s n q ''F08'' data =
       (let newMaxPacketAmount =
              bn_dividedToIntegerBy (bn_times q (Fin (of_nat (uintBE (take 8 (drop 8 data))))))
                (Fin (of_nat (uintBE (take 8 data))))
        in if bn_gte newMaxPacketAmount q
           then Inr (logLine LogUnexpectedAmountTooLarge (logLine (LogRejected n ''F08'') s))
           else if bn_lt newMaxPacketAmount q
           then Inr ((logLine (LogReducing q (maxPacketAmount s))
                        (logLine (LogRejected n ''F08'') s))
                       \<lparr>maxPacketAmount := newMaxPacketAmount\<rparr>)
           else Inr (logLine (LogRejected n ''F08'') s))"
    if "16 \<le> length data"
    using onReject_F08 [OF that] .
  have whole: "onReject s n (Fin (of_int j)) ''F08'' data =
       (if j \<le> (j * int (uintBE (take 8 (drop 8 data)))) div int (uintBE (take 8 data))
        then Inr (logLine LogUnexpectedAmountTooLarge (logLine (LogRejected n ''F08'') s))
        else Inr ((logLine (LogReducing (Fin (of_int j)) (maxPacketAmount s))
                     (logLine (LogRejected n ''F08'') s))
                    \<lparr>maxPacketAmount :=
                       Fin (of_int ((j * int (uintBE (take 8 (drop 8 data))))
                                     div int (uintBE (take 8 data))))\<rparr>))"
    if "16 \<le> length data" "0 < uintBE (take 8 data)" "0 \<le> j"
    using onReject_F08_whole [OF that(1,3,2)] .
  show ?thesis
    apply (intro conjI impI)
    using step whole mono by blast+
qed

theorem maxPacketAmount_never_raised_witness:
  "16 \<le> length [0, 0, 0, 0, 0, 0, 0, 100, 0, 0, 0, 0, 0, 0, 0, 50 :: 8 word]
   \<and> 0 < uintBE (take 8 [0, 0, 0, 0, 0, 0, 0, 100, 0, 0, 0, 0, 0, 0, 0, 50])
   \<and> onReject (startSession exampleConverter (exampleOpts 100) 0) 1 (Fin 100) ''F08''
        [0, 0, 0, 0, 0, 0, 0, 100, 0, 0, 0, 0, 0, 0, 0, 50]
      = Inr ((logLine (LogReducing (Fin 100) PInf)
                (logLine (LogRejected 1 ''F08'') (startSession exampleConverter (exampleOpts 100) 0)))
               \<lparr>maxPacketAmount := Fin 50\<rparr>)
   \<and> onReject (startSession exampleConverter (exampleOpts 100) 0) 1 (Fin 100) ''F08''
        [0, 0, 0, 0, 0, 0, 0, 0, 0, 0, 0, 0, 0, 0, 0, 0]
      = Inr (logLine (LogRejected 1 ''F08'') (startSession exampleConverter (exampleOpts 100) 0))
   \<and> maxPacketAmount (sessionAfter exampleConverter (Fin (1 / 100))
          (startSession exampleConverter (exampleOpts 100) 0)
          [exampleEnv 1 (Inr (IlpReject ''F08'' [0, 0, 0, 0, 0, 0, 0, 100, 0, 0, 0, 0, 0, 0, 0, 50]))])
      = Fin 50
   \<and> bn_lte (maxPacketAmount (sessionAfter exampleConverter (Fin (1 / 100))
                (startSession exampleConverter (exampleOpts 100) 0)
                ([exampleEnv 1 (Inr (IlpReject ''F08''
                    [0, 0, 0, 0, 0, 0, 0, 100, 0, 0, 0, 0, 0, 0, 0, 50]))]
                 @ [exampleEnv 2 (Inr (IlpReject ''F08''
                    [0, 0, 0, 0, 0, 0, 0, 50, 0, 0, 0, 0, 0, 0, 0, 60]))])))
        (Fin 50)"
proof -
  let ?d = "[0, 0, 0, 0, 0, 0, 0, 100, 0, 0, 0, 0, 0, 0, 0, 50 :: 8 word]"
  let ?z = "[0, 0, 0, 0, 0, 0, 0, 0, 0, 0, 0, 0, 0, 0, 0, 0 :: 8 word]"
  let ?s = "startSession exampleConverter (exampleOpts 100) 0"
  let ?e1 = "exampleEnv 1 (Inr (IlpReject ''F08'' ?d))"
  let ?e2 = "exampleEnv 2 (Inr (IlpReject ''F08'' [0, 0, 0, 0, 0, 0, 0, 50, 0, 0, 0, 0, 0, 0, 0, 60]))"
  have l: "16 \<le> length ?d" by simp
  have r: "uintBE (take 8 ?d) = 100" by (simp add: uintBE_def)
  have m: "uintBE (take 8 (drop 8 ?d)) = 50" by (simp add: uintBE_def)
  have lz: "16 \<le> length ?z" by simp
  have rz: "uintBE (take 8 ?z) = 0" "uintBE (take 8 (drop 8 ?z)) = 0" by (simp_all add: uintBE_def)
  have nan: "bn_dividedToIntegerBy (bn_times (Fin 100) (Fin (of_nat 0))) (Fin (of_nat 0)) = NaN"
    by (simp add: bn_dividedToIntegerBy_def)
  have a: "maxPacketAmount (sessionAfter exampleConverter (Fin (1 / 100)) ?s [?e1]) = Fin 50"
    by (simp add: session_defs)
  note t = maxPacketAmount_never_raised [where data = ?d and j = 100 and s = ?s and n = 1
      and cv = exampleConverter and sl = "Fin (1 / 100)" and opts = "exampleOpts 100" and t = 0
      and es = "[?e1]" and es' = "[?e2]"]
  note u = maxPacketAmount_never_raised [where data = ?z and s = ?s and n = 1 and q = "Fin 100"]
  have p: "maxPacketAmount ?s = PInf"
    by (simp add: startSession_def bumpIdle_def)
  have 1: "onReject ?s 1 (Fin 100) ''F08'' ?d
      = Inr ((logLine (LogReducing (Fin 100) PInf) (logLine (LogRejected 1 ''F08'') ?s))
               \<lparr>maxPacketAmount := Fin 50\<rparr>)"
    using t [THEN conjunct2, THEN conjunct1] l r m p by simp
  have 2: "bn_lte (maxPacketAmount (sessionAfter exampleConverter (Fin (1 / 100)) ?s ([?e1] @ [?e2])))
      (Fin 50)"
    using t [THEN conjunct2, THEN conjunct2] unfolding a .
  have 3: "onReject ?s 1 (Fin 100) ''F08'' ?z = Inr (logLine (LogRejected 1 ''F08'') ?s)"
    using u [THEN conjunct1] lz unfolding rz nan by (simp add: Let_def)
  show ?thesis
    using l r 1 3 a 2 by (simp only: simp_thms)
qed

text \<open>
  C2 as stated fails: when the new maximum is not at least the packet amount, the maximum
  packet amount is not always set to it.  The first packet of a stream of 10 is rejected
  with F08 and a payload of sixteen zero bytes: the new maximum is \<open>10 * 0 / 0\<close>, not a
  number; it is not at least the packet amount, and the maximum packet amount stays
  unbounded.
\<close>

theorem f08_step_counterexample:
  "\<not> bn_gte (bn_dividedToIntegerBy (bn_times (Fin 10) (Fin 0)) (Fin 0)) (Fin 10)
   \<and> bn_dividedToIntegerBy (bn_times (Fin 10) (Fin 0)) (Fin 0) = NaN
   \<and> sessionAfter exampleConverter (Fin (1 / 100))
        (startSession exampleConverter (exampleOpts 10) 0)
        [exampleEnv 1 (Inr (IlpReject ''F08'' [0, 0, 0, 0, 0, 0, 0, 0, 0, 0, 0, 0, 0, 0, 0, 0]))]
     = \<lparr>amountToSend = Fin 10, timeout = 10000, prepareCount = 1, fulfillCount = 0,
        totalFulfilled = Fin 0, maxPacketAmount = PInf, packetHandler = None,
        logs = [LogStarting, LogSending 1 (Fin 10), LogRejected 1 ''F08'']\<rparr>"
  by (simp add: session_defs)


section \<open>An F08 reject that reports a received amount of zero\<close>

lemma idiv_zero:
  "bn_dividedToIntegerBy (Fin x) (Fin 0) = (if 0 < x then PInf else if x < 0 then NInf else NaN)"
  by (auto simp: bn_dividedToIntegerBy_def bn_inf_def)

lemma onReject_zero_received:
  assumes len: "16 \<le> length data" and zero: "uintBE (take 8 data) = 0"
    and q: "q = NaN \<or> (\<exists>a. q = Fin a \<and> 0 \<le> a)"
  shows "\<exists>s'. onReject s n q ''F08'' data = Inr s' \<and> maxPacketAmount s' = maxPacketAmount s"
proof (cases "q = NaN")
  case True
  then show ?thesis
    by (simp add: onReject_F08 [OF len] bn_dividedToIntegerBy_def)
next
  case False
  then obtain a where a: "q = Fin a" "0 \<le> a" using q by blast
  show ?thesis
    using a(2) zero
    by (simp add: onReject_F08 [OF len] a(1) idiv_zero Let_def mult_less_0_iff)
qed

text \<open>
  C10, as the code has it.  In a session, a call whose reply is an F08 reject reporting a
  received amount of zero does not throw and leaves the maximum packet amount as it was.
  For a positive packet amount and a positive foreign maximum the new maximum is infinite
  and the anomaly branch is taken; when the packet amount or the foreign maximum is zero
  the new maximum is \<^verbatim>\<open>NaN\<close>, both comparisons are false and neither branch is taken.
\<close>

theorem zero_received_leaves_max:
  assumes reply: "reply e = Inr (IlpReject ''F08'' data)"
    and len: "16 \<le> length data" and zero: "uintBE (take 8 data) = 0"
  shows "(\<forall>t' s'. attempt cv sl (sessionAfter cv sl (startSession cv opts t) es) e
                    \<noteq> Done (Thrown t') s')
    \<and> maxPacketAmount (stateOf (attempt cv sl (sessionAfter cv sl (startSession cv opts t) es) e))
        = maxPacketAmount (sessionAfter cv sl (startSession cv opts t) es)
    \<and> (0 < a \<and> 0 < uintBE (take 8 (drop 8 data)) \<longrightarrow>
          bn_dividedToIntegerBy (bn_times (Fin a) (Fin (of_nat (uintBE (take 8 (drop 8 data))))))
            (Fin (of_nat (uintBE (take 8 data)))) = PInf
          \<and> onReject s n (Fin a) ''F08'' data
            = Inr (logLine LogUnexpectedAmountTooLarge (logLine (LogRejected n ''F08'') s)))
    \<and> (a = 0 \<or> uintBE (take 8 (drop 8 data)) = 0 \<longrightarrow>
          bn_dividedToIntegerBy (bn_times (Fin a) (Fin (of_nat (uintBE (take 8 (drop 8 data))))))
            (Fin (of_nat (uintBE (take 8 data)))) = NaN
          \<and> onReject s n (Fin a) ''F08'' data = Inr (logLine (LogRejected n ''F08'') s))"
proof -
  let ?s = "sessionAfter cv sl (startSession cv opts t) es"
  have ok: "maxOk (maxPacketAmount ?s)"
    using sessionAfter_max [OF startSession_maxOk] by blast
  have step: "(\<forall>t' s'. attempt cv sl ?s e \<noteq> Done (Thrown t') s')
      \<and> maxPacketAmount (stateOf (attempt cv sl ?s e)) = maxPacketAmount ?s"
  proof (cases rule: attempt_cases [where cv = cv and sl = sl and s = ?s and e = e])
    case send
    let ?q = "packetAmountFor (toSourceBase cv (availableToDebit e))
        (bn_minus (amountToSend ?s) (totalFulfilled ?s)) (maxPacketAmount ?s)"
    have q: "?q = NaN \<or> (\<exists>a. ?q = Fin a \<and> 0 \<le> a)"
      using packetAmountFor_shape [OF send(2,3,6) ok] by (metis of_int_0_le_iff)
    obtain s4 where s4: "onReject (preparePacket cv sl ?s e ?q) (prepareCount ?s + 1) ?q ''F08'' data
        = Inr s4" "maxPacketAmount s4 = maxPacketAmount (preparePacket cv sl ?s e ?q)"
      using onReject_zero_received [OF len zero q] by blast
    have "sendOne cv sl ?s e ?q = Next (deregisterPacketHandler s4)"
      using reply s4(1) by (simp add: sendOne_def Let_def)
    then show ?thesis using send(7) s4(2) by simp
  qed simp_all
  have pos: "bn_dividedToIntegerBy (bn_times (Fin a) (Fin (of_nat (uintBE (take 8 (drop 8 data))))))
            (Fin (of_nat (uintBE (take 8 data)))) = PInf
          \<and> onReject s n (Fin a) ''F08'' data
            = Inr (logLine LogUnexpectedAmountTooLarge (logLine (LogRejected n ''F08'') s))"
    if "0 < a" "0 < uintBE (take 8 (drop 8 data))"
    using that zero by (simp add: onReject_F08 [OF len] idiv_zero Let_def)
  have nan: "bn_dividedToIntegerBy (bn_times (Fin a) (Fin (of_nat (uintBE (take 8 (drop 8 data))))))
            (Fin (of_nat (uintBE (take 8 data)))) = NaN
          \<and> onReject s n (Fin a) ''F08'' data = Inr (logLine (LogRejected n ''F08'') s)"
    if "a = 0 \<or> uintBE (take 8 (drop 8 data)) = 0"
    using that zero by (auto simp: onReject_F08 [OF len] idiv_zero Let_def)
  show ?thesis using step pos nan by blast
qed

theorem zero_received_leaves_max_witness:
  "reply (exampleEnv 1 (Inr (IlpReject ''F08'' [0, 0, 0, 0, 0, 0, 0, 0, 0, 0, 0, 0, 0, 0, 0, 7])))
     = Inr (IlpReject ''F08'' [0, 0, 0, 0, 0, 0, 0, 0, 0, 0, 0, 0, 0, 0, 0, 7])
   \<and> 16 \<le> length [0, 0, 0, 0, 0, 0, 0, 0, 0, 0, 0, 0, 0, 0, 0, 7 :: 8 word]
   \<and> uintBE (take 8 [0, 0, 0, 0, 0, 0, 0, 0, 0, 0, 0, 0, 0, 0, 0, 7]) = 0
   \<and> maxPacketAmount (stateOf (attempt exampleConverter (Fin (1 / 100))
        (sessionAfter exampleConverter (Fin (1 / 100))
           (startSession exampleConverter (exampleOpts 5) 0) [])
        (exampleEnv 1 (Inr (IlpReject ''F08'' [0, 0, 0, 0, 0, 0, 0, 0, 0, 0, 0, 0, 0, 0, 0, 7])))))
      = PInf
   \<and> onReject (startSession exampleConverter (exampleOpts 5) 0) 1 (Fin 5) ''F08''
        [0, 0, 0, 0, 0, 0, 0, 0, 0, 0, 0, 0, 0, 0, 0, 7]
      = Inr (logLine LogUnexpectedAmountTooLarge
               (logLine (LogRejected 1 ''F08'') (startSession exampleConverter (exampleOpts 5) 0)))"
proof -
  let ?d = "[0, 0, 0, 0, 0, 0, 0, 0, 0, 0, 0, 0, 0, 0, 0, 7 :: 8 word]"
  let ?e = "exampleEnv 1 (Inr (IlpReject ''F08'' ?d))"
  let ?s = "startSession exampleConverter (exampleOpts 5) 0"
  have r: "reply ?e = Inr (IlpReject ''F08'' ?d)" by (simp add: exampleEnv_def)
  have l: "16 \<le> length ?d" by simp
  have z: "uintBE (take 8 ?d) = 0" by (simp add: uintBE_def)
  have m: "uintBE (take 8 (drop 8 ?d)) = 7" by (simp add: uintBE_def)
  have p: "maxPacketAmount ?s = PInf" by (simp add: startSession_def bumpIdle_def)
  note t = zero_received_leaves_max [OF r l z, of exampleConverter "Fin (1 / 100)"
      "exampleOpts 5" 0 "[]" 5 ?s 1]
  have 1: "maxPacketAmount (stateOf (attempt exampleConverter (Fin (1 / 100))
        (sessionAfter exampleConverter (Fin (1 / 100)) ?s []) ?e)) = PInf"
    using t [THEN conjunct2, THEN conjunct1] p by simp
  have 2: "onReject ?s 1 (Fin 5) ''F08'' ?d
      = Inr (logLine LogUnexpectedAmountTooLarge (logLine (LogRejected 1 ''F08'') ?s))"
    using t [THEN conjunct2, THEN conjunct2, THEN conjunct1] m by simp
  show ?thesis using r l z 1 2 by (simp only: simp_thms)
qed

text \<open>
  C10 as stated fails where the packet amount or the foreign maximum is zero.  Here a first
  F08 reject (received 2, maximum 1, for a packet of 1) lowers the maximum packet amount to
  zero, the next packet is of amount zero, and the reject that reports a received amount of
  zero gives zero divided by zero: the new maximum is \<^verbatim>\<open>NaN\<close>, not infinite, and the call
  logs the reject only, not the anomaly.
\<close>

theorem zero_received_nan_counterexample:
  "logs (sessionAfter exampleConverter (Fin (1 / 100))
        (startSession exampleConverter (exampleOpts 1) 0)
        [exampleEnv 1 (Inr (IlpReject ''F08'' [0, 0, 0, 0, 0, 0, 0, 2, 0, 0, 0, 0, 0, 0, 0, 1])),
         exampleEnv 2 (Inr (IlpReject ''F08'' [0, 0, 0, 0, 0, 0, 0, 0, 0, 0, 0, 0, 0, 0, 0, 5]))])
     = [LogStarting, LogSending 1 (Fin 1), LogRejected 1 ''F08'', LogReducing (Fin 1) PInf,
        LogSending 2 (Fin 0), LogRejected 2 ''F08'']
   \<and> bn_dividedToIntegerBy (bn_times (Fin 0) (Fin 5)) (Fin 0) = NaN"
  by (simp add: session_defs)

section \<open>The capacity check\<close>

text \<open>
  C7, as the code has it.  In a call that starts within the idle deadline with a remaining
  amount that is neither zero nor negative, if the remaining amount converted to source
  exchange units exceeds the source uplink's available-to-send, the call ends the loop at
  the insufficient-outgoing-capacity return: nothing but the log line changes, so no packet
  is prepared or sent in that call.  When this is the first call of the stream, the stream
  ends rejected with \<open>prepareCount = 0\<close>.
\<close>

theorem insufficient_outgoing_fails:
  assumes live: "now e \<le> timeout s"
    and pos: "\<not> bn_isZero (bn_minus (amountToSend s) (totalFulfilled s))"
             "\<not> bn_lte (bn_minus (amountToSend s) (totalFulfilled s)) (Fin 0)"
    and cap: "bn_gt (toSourceExchange cv (bn_minus (amountToSend s) (totalFulfilled s)))
                (availableToSend e)"
  shows "trySendPacket cv sl s (e # es)
         = Some (InsufficientOutgoing,
                 logLine (LogInsufficientOutgoing
                   (format cv (bn_minus (amountToSend s) (totalFulfilled s)))) s)
       \<and> (s = startSession cv opts dateNow \<and> sl = slippageOf opts \<longrightarrow>
            (\<exists>s'. streamMoney cv opts dateNow (e # es) = Some (Rejected None, s')
                  \<and> prepareCount s' = 0 \<and> sentAmounts (logs s') = []))"
proof -
  have a: "attempt cv sl s e
      = Done InsufficientOutgoing
          (logLine (LogInsufficientOutgoing
                   (format cv (bn_minus (amountToSend s) (totalFulfilled s)))) s)"
    using assms by (simp add: attempt_def)
  then have 1: "trySendPacket cv sl s (e # es)
         = Some (InsufficientOutgoing,
                 logLine (LogInsufficientOutgoing
                   (format cv (bn_minus (amountToSend s) (totalFulfilled s)))) s)"
    by simp
  have 2: "\<exists>s'. streamMoney cv opts dateNow (e # es) = Some (Rejected None, s')
                  \<and> prepareCount s' = 0 \<and> sentAmounts (logs s') = []"
    if "s = startSession cv opts dateNow" "sl = slippageOf opts"
    using 1 that
    by (simp add: streamMoney_def onFinally_def startSession_def bumpIdle_def Let_def)
  show ?thesis using 1 2 by blast
qed

theorem insufficient_outgoing_fails_witness:
  "\<exists>s'. streamMoney exampleConverter (exampleOpts 10) 0
          [(exampleEnv 1 (Inl SendError))\<lparr>availableToSend := Fin 5\<rparr>] = Some (Rejected None, s')
        \<and> prepareCount s' = 0 \<and> sentAmounts (logs s') = []"
proof -
  let ?s = "startSession exampleConverter (exampleOpts 10) 0"
  let ?e = "(exampleEnv 1 (Inl SendError))\<lparr>availableToSend := Fin 5\<rparr>"
  have 1: "now ?e \<le> timeout ?s"
    by (simp add: session_defs)
  have 2: "\<not> bn_isZero (bn_minus (amountToSend ?s) (totalFulfilled ?s))"
    "\<not> bn_lte (bn_minus (amountToSend ?s) (totalFulfilled ?s)) (Fin 0)"
    by (simp_all add: session_defs)
  have 3: "bn_gt (toSourceExchange exampleConverter (bn_minus (amountToSend ?s) (totalFulfilled ?s)))
                (availableToSend ?e)"
    by (simp add: session_defs)
  show ?thesis
    using insufficient_outgoing_fails [OF 1 2 3, of "slippageOf (exampleOpts 10)" "[]" "exampleOpts 10" 0]
    by simp
qed

text \<open>
  C7 as stated fails in a call that starts after the idle deadline: the liveness check comes
  first, and the call ends at the timeout return although the remaining amount (10) exceeds
  the available-to-send (5).
\<close>

theorem insufficient_outgoing_after_deadline_counterexample:
  "bn_gt (toSourceExchange exampleConverter (Fin 10)) (Fin 5)
   \<and> map_option fst
       (trySendPacket exampleConverter (Fin (1 / 100))
          (startSession exampleConverter (exampleOpts 10) 0)
          [exampleEnv 1 (Inr (IlpReject ''F99'' [])),
           (exampleEnv 10001 (Inr (IlpReject ''F99'' [])))\<lparr>availableToSend := Fin 5\<rparr>])
     = Some TimedOut"
  by (simp add: session_defs)

section \<open>What the caller sees of a failure\<close>

lemma attempt_readable_not_thrown:
  assumes "readableReply (reply e)"
  shows "attempt cv sl s e \<noteq> Done (Thrown t) s'"
proof (cases rule: attempt_cases [where cv = cv and sl = sl and s = s and e = e])
  case send
  show ?thesis
    unfolding send(7)
    by (cases rule: sendOne_cases [where cv = cv and sl = sl and s = s and e = e
          and q = "packetAmountFor (toSourceBase cv (availableToDebit e))
                     (bn_minus (amountToSend s) (totalFulfilled s)) (maxPacketAmount s)"])
       (use assms in auto)
qed simp_all

lemma trySendPacket_readable_not_thrown:
  "\<forall>e \<in> set es. readableReply (reply e) \<Longrightarrow> trySendPacket cv sl s es \<noteq> Some (Thrown t, s')"
proof (induction es arbitrary: s)
  case Nil
  show ?case by simp
next
  case (Cons e es)
  show ?case
  proof (cases "attempt cv sl s e")
    case (Done out s1)
    then show ?thesis
      using attempt_readable_not_thrown [of e cv sl s t s'] Cons.prems by auto
  next
    case (Next s1)
    then show ?thesis using Cons by simp
  qed
qed

lemma attempt_absorbs_reject:
  assumes "sendsPacket cv s x" "reply x = Inr (IlpReject code data)"
    "code = ''F08'' \<longrightarrow> 16 \<le> length data"
  shows "\<exists>s'. attempt cv sl s x = Next s'"
proof (cases rule: attempt_cases [where cv = cv and sl = sl and s = s and e = x])
  case send
  show ?thesis
    unfolding send(7)
    by (cases rule: sendOne_cases [where cv = cv and sl = sl and s = s and e = x
          and q = "packetAmountFor (toSourceBase cv (availableToDebit x))
                     (bn_minus (amountToSend s) (totalFulfilled s)) (maxPacketAmount s)"])
       (use assms in auto)
qed (use assms(1) in \<open>simp_all add: sendsPacket_def\<close>)

text \<open>
  C9, as the code has it.  Each of the three fatal conditions ends the loop in the call in
  which it holds, and the caller of \<^verbatim>\<open>streamMoney\<close> sees a rejection whose reason is
  \<^verbatim>\<open>undefined\<close>: \<^verbatim>\<open>Promise.reject()\<close> is called without an argument, and which
  condition it was is in the log only.  With \<open>s\<close> the session after the calls \<open>pre\<close>, none
  of which ended the loop, and \<open>R\<close> the remaining amount of \<open>s\<close>:
  \<^item> a call that starts after the idle deadline ends the loop at the timeout return;
  \<^item> a call within the deadline, \<open>R\<close> neither zero nor negative, in which \<open>R\<close> exceeds
    the outgoing capacity ends the loop at the outgoing-capacity return;
  \<^item> such a call in which \<open>R\<close> is within the outgoing capacity and exceeds the incoming
    capacity ends the loop at the incoming-capacity return;

  and in each of them \<^verbatim>\<open>streamMoney\<close> settles as rejected with no reason, the handler
  deregistered.  A reject reply, for F08 with a payload that holds the two amounts, never
  ends the loop: a call that sends a packet and gets such a reply goes on to the next
  call, and a loop whose replies are all fulfills or such rejects never ends with a throw.
\<close>

theorem fatal_conditions_reject_undefined:
  fixes cv opts dateNow pre
  defines "s \<equiv> sessionAfter cv (slippageOf opts) (startSession cv opts dateNow) pre"
  defines "R \<equiv> bn_minus (amountToSend s) (totalFulfilled s)"
  assumes running: "trySendPacket cv (slippageOf opts) (startSession cv opts dateNow) pre = None"
  shows "(timeout s < now e \<longrightarrow>
            trySendPacket cv (slippageOf opts) (startSession cv opts dateNow) (pre @ e # post)
              = Some (TimedOut, logLine LogTimedOut s)
            \<and> streamMoney cv opts dateNow (pre @ e # post)
              = Some (Rejected None, onFinally (logLine LogTimedOut s)))
       \<and> (now e \<le> timeout s \<and> \<not> bn_isZero R \<and> \<not> bn_lte R (Fin 0)
            \<and> bn_gt (toSourceExchange cv R) (availableToSend e) \<longrightarrow>
            trySendPacket cv (slippageOf opts) (startSession cv opts dateNow) (pre @ e # post)
              = Some (InsufficientOutgoing, logLine (LogInsufficientOutgoing (format cv R)) s)
            \<and> streamMoney cv opts dateNow (pre @ e # post)
              = Some (Rejected None, onFinally (logLine (LogInsufficientOutgoing (format cv R)) s)))
       \<and> (now e \<le> timeout s \<and> \<not> bn_isZero R \<and> \<not> bn_lte R (Fin 0)
            \<and> \<not> bn_gt (toSourceExchange cv R) (availableToSend e)
            \<and> bn_gt (toDestExchange cv R) (availableToReceive e) \<longrightarrow>
            trySendPacket cv (slippageOf opts) (startSession cv opts dateNow) (pre @ e # post)
              = Some (InsufficientIncoming, logLine (LogInsufficientIncoming (format cv R)) s)
            \<and> streamMoney cv opts dateNow (pre @ e # post)
              = Some (Rejected None, onFinally (logLine (LogInsufficientIncoming (format cv R)) s)))
       \<and> (trySendPacket cv (slippageOf opts) (startSession cv opts dateNow) es = Some (out, s2)
            \<and> (out = TimedOut \<or> out = InsufficientOutgoing \<or> out = InsufficientIncoming) \<longrightarrow>
            streamMoney cv opts dateNow es = Some (Rejected None, onFinally s2))
       \<and> (sendsPacket cv s1 x \<and> reply x = Inr (IlpReject code data)
            \<and> (code = ''F08'' \<longrightarrow> 16 \<le> length data) \<longrightarrow>
            (\<exists>s3. attempt cv sl s1 x = Next s3))
       \<and> (reply x = Inr (IlpReject code data) \<and> (code = ''F08'' \<longrightarrow> 16 \<le> length data) \<longrightarrow>
            (\<exists>s3. sendOne cv sl s1 x q = Next s3))
       \<and> ((\<forall>y \<in> set es. readableReply (reply y)) \<longrightarrow>
            (\<forall>t s3. trySendPacket cv sl s1 es \<noteq> Some (Thrown t, s3)))"
proof -
  let ?init = "startSession cv opts dateNow"
  let ?sl = "slippageOf opts"
  have loop: "trySendPacket cv ?sl ?init (pre @ e # post)
      = (case attempt cv ?sl s e of
           Done out s' \<Rightarrow> Some (out, s') | Next s' \<Rightarrow> trySendPacket cv ?sl s' post)"
    using running by (simp add: trySendPacket_append s_def)
  have stream: "streamMoney cv opts dateNow (pre @ e # post) = Some (settle out', onFinally s')"
    if "attempt cv ?sl s e = Done out' s'" for out' s'
    using that loop by (simp add: streamMoney_def)
  have R: "bn_minus (amountToSend s) (totalFulfilled s) = R" by (simp add: R_def)
  note eq = attempt_def [of cv ?sl s e, unfolded Let_def R]
  have 1: "trySendPacket cv ?sl ?init (pre @ e # post) = Some (TimedOut, logLine LogTimedOut s)
      \<and> streamMoney cv opts dateNow (pre @ e # post)
        = Some (Rejected None, onFinally (logLine LogTimedOut s))"
    if "timeout s < now e"
  proof -
    have "attempt cv ?sl s e = Done TimedOut (logLine LogTimedOut s)"
      using that by (simp add: eq)
    then show ?thesis using loop stream by simp
  qed
  have 2: "trySendPacket cv ?sl ?init (pre @ e # post)
        = Some (InsufficientOutgoing, logLine (LogInsufficientOutgoing (format cv R)) s)
      \<and> streamMoney cv opts dateNow (pre @ e # post)
        = Some (Rejected None, onFinally (logLine (LogInsufficientOutgoing (format cv R)) s))"
    if "now e \<le> timeout s" "\<not> bn_isZero R" "\<not> bn_lte R (Fin 0)"
       "bn_gt (toSourceExchange cv R) (availableToSend e)"
  proof -
    have "attempt cv ?sl s e
        = Done InsufficientOutgoing (logLine (LogInsufficientOutgoing (format cv R)) s)"
      using that by (simp add: eq)
    then show ?thesis using loop stream by simp
  qed
  have 3: "trySendPacket cv ?sl ?init (pre @ e # post)
        = Some (InsufficientIncoming, logLine (LogInsufficientIncoming (format cv R)) s)
      \<and> streamMoney cv opts dateNow (pre @ e # post)
        = Some (Rejected None, onFinally (logLine (LogInsufficientIncoming (format cv R)) s))"
    if "now e \<le> timeout s" "\<not> bn_isZero R" "\<not> bn_lte R (Fin 0)"
       "\<not> bn_gt (toSourceExchange cv R) (availableToSend e)"
       "bn_gt (toDestExchange cv R) (availableToReceive e)"
  proof -
    have "attempt cv ?sl s e
        = Done InsufficientIncoming (logLine (LogInsufficientIncoming (format cv R)) s)"
      using that by (simp add: eq)
    then show ?thesis using loop stream by simp
  qed
  have 4: "streamMoney cv opts dateNow es = Some (Rejected None, onFinally s2)"
    if "trySendPacket cv ?sl ?init es = Some (out, s2)"
       "out = TimedOut \<or> out = InsufficientOutgoing \<or> out = InsufficientIncoming"
    using that by (auto simp: streamMoney_def)
  have 5: "\<exists>s3. attempt cv sl s1 x = Next s3"
    if "sendsPacket cv s1 x" "reply x = Inr (IlpReject code data)"
       "code = ''F08'' \<longrightarrow> 16 \<le> length data"
    using attempt_absorbs_reject [OF that] .
  have 6: "\<exists>s3. sendOne cv sl s1 x q = Next s3"
    if "reply x = Inr (IlpReject code data)" "code = ''F08'' \<longrightarrow> 16 \<le> length data"
    by (cases rule: sendOne_cases [where cv = cv and sl = sl and s = s1 and e = x and q = q])
       (use that in auto)
  have 7: "\<forall>t s3. trySendPacket cv sl s1 es \<noteq> Some (Thrown t, s3)"
    if "\<forall>y \<in> set es. readableReply (reply y)"
    using trySendPacket_readable_not_thrown [OF that] by blast
  show ?thesis
    apply (intro conjI impI)
    using 1 2 3 4 5 6 7 by blast+
qed

theorem fatal_conditions_reject_undefined_witness:
  "trySendPacket exampleConverter (slippageOf (exampleOpts 10))
       (startSession exampleConverter (exampleOpts 10) 0)
       [exampleEnv 1 (Inr (IlpReject ''F99'' []))] = None
   \<and> streamMoney exampleConverter (exampleOpts 10) 0
       ([exampleEnv 1 (Inr (IlpReject ''F99'' []))]
        @ exampleEnv 10001 (Inr (IlpReject ''F99'' [])) # [])
     = Some (Rejected None,
         \<lparr>amountToSend = Fin 10, timeout = 10000, prepareCount = 1, fulfillCount = 0,
          totalFulfilled = Fin 0, maxPacketAmount = PInf, packetHandler = None,
          logs = [LogStarting, LogSending 1 (Fin 10), LogRejected 1 ''F99'', LogTimedOut,
                  LogStreamEnded 0 1]\<rparr>)
   \<and> streamMoney exampleConverter (exampleOpts 10) 0
       ([exampleEnv 1 (Inr (IlpReject ''F99'' []))]
        @ (exampleEnv 2 (Inr (IlpFulfill [] [])))\<lparr>availableToSend := Fin 5\<rparr> # [])
     = Some (Rejected None,
         \<lparr>amountToSend = Fin 10, timeout = 10000, prepareCount = 1, fulfillCount = 0,
          totalFulfilled = Fin 0, maxPacketAmount = PInf, packetHandler = None,
          logs = [LogStarting, LogSending 1 (Fin 10), LogRejected 1 ''F99'',
                  LogInsufficientOutgoing (Fin 10), LogStreamEnded 0 1]\<rparr>)
   \<and> streamMoney exampleConverter (exampleOpts 10) 0
       ([exampleEnv 1 (Inr (IlpReject ''F99'' []))]
        @ (exampleEnv 2 (Inr (IlpFulfill [] [])))\<lparr>availableToReceive := Fin 5\<rparr> # [])
     = Some (Rejected None,
         \<lparr>amountToSend = Fin 10, timeout = 10000, prepareCount = 1, fulfillCount = 0,
          totalFulfilled = Fin 0, maxPacketAmount = PInf, packetHandler = None,
          logs = [LogStarting, LogSending 1 (Fin 10), LogRejected 1 ''F99'',
                  LogInsufficientIncoming (Fin 10), LogStreamEnded 0 1]\<rparr>)"
proof -
  let ?pre = "[exampleEnv 1 (Inr (IlpReject ''F99'' []))]"
  let ?late = "exampleEnv 10001 (Inr (IlpReject ''F99'' []))"
  let ?out = "(exampleEnv 2 (Inr (IlpFulfill [] [])))\<lparr>availableToSend := Fin 5\<rparr>"
  let ?inc = "(exampleEnv 2 (Inr (IlpFulfill [] [])))\<lparr>availableToReceive := Fin 5\<rparr>"
  let ?init = "startSession exampleConverter (exampleOpts 10) 0"
  let ?s = "\<lparr>amountToSend = Fin 10, timeout = 10000, prepareCount = 1, fulfillCount = 0,
          totalFulfilled = Fin 0, maxPacketAmount = PInf, packetHandler = None,
          logs = [LogStarting, LogSending 1 (Fin 10), LogRejected 1 ''F99'']\<rparr>"
  have running: "trySendPacket exampleConverter (slippageOf (exampleOpts 10)) ?init ?pre = None"
    by (simp add: session_defs)
  have sa: "sessionAfter exampleConverter (slippageOf (exampleOpts 10)) ?init ?pre = ?s"
    by (simp add: session_defs)
  have R: "bn_minus (amountToSend ?s) (totalFulfilled ?s) = Fin 10"
    by simp
  have 1: "streamMoney exampleConverter (exampleOpts 10) 0 (?pre @ ?late # [])
      = Some (Rejected None, onFinally (logLine LogTimedOut ?s))"
    using fatal_conditions_reject_undefined [OF running, of ?late "[]", THEN conjunct1]
    unfolding sa by (simp add: exampleEnv_def)
  have 2: "streamMoney exampleConverter (exampleOpts 10) 0 (?pre @ ?out # [])
      = Some (Rejected None,
          onFinally (logLine (LogInsufficientOutgoing (format exampleConverter (Fin 10))) ?s))"
    using fatal_conditions_reject_undefined [OF running, of ?out "[]",
        THEN conjunct2, THEN conjunct1]
    unfolding sa R by (simp add: exampleEnv_def exampleConverter_def)
  have 3: "streamMoney exampleConverter (exampleOpts 10) 0 (?pre @ ?inc # [])
      = Some (Rejected None,
          onFinally (logLine (LogInsufficientIncoming (format exampleConverter (Fin 10))) ?s))"
    using fatal_conditions_reject_undefined [OF running, of ?inc "[]",
        THEN conjunct2, THEN conjunct2, THEN conjunct1]
    unfolding sa R by (simp add: exampleEnv_def exampleConverter_def)
  have f: "onFinally (logLine l ?s)
      = \<lparr>amountToSend = Fin 10, timeout = 10000, prepareCount = 1, fulfillCount = 0,
          totalFulfilled = Fin 0, maxPacketAmount = PInf, packetHandler = None,
          logs = [LogStarting, LogSending 1 (Fin 10), LogRejected 1 ''F99'', l,
                  LogStreamEnded 0 1]\<rparr>" for l
    by (simp add: onFinally_def logLine_def deregisterPacketHandler_def Let_def)
  have g: "format exampleConverter (Fin 10) = Fin 10"
    by (simp add: format_def exampleConverter_def)
  show ?thesis
    using running 1 2 3 unfolding f g by (simp only: simp_thms)
qed

text \<open>
  C9 as stated fails: the rejection does not carry the condition.  A stream that ends at
  the timeout return and one that ends at the outgoing-capacity return settle with the
  same value, rejected with \<^verbatim>\<open>undefined\<close>.
\<close>

theorem failure_reason_counterexample:
  "map_option fst
       (trySendPacket exampleConverter (slippageOf (exampleOpts 10))
          (startSession exampleConverter (exampleOpts 10) 0)
          [exampleEnv 10001 (Inl SendError)]) = Some TimedOut
   \<and> map_option fst
       (trySendPacket exampleConverter (slippageOf (exampleOpts 10))
          (startSession exampleConverter (exampleOpts 10) 0)
          [(exampleEnv 1 (Inl SendError))\<lparr>availableToSend := Fin 5\<rparr>]) = Some InsufficientOutgoing
   \<and> map_option fst (streamMoney exampleConverter (exampleOpts 10) 0
          [exampleEnv 10001 (Inl SendError)]) = Some (Rejected None)
   \<and> map_option fst (streamMoney exampleConverter (exampleOpts 10) 0
          [(exampleEnv 1 (Inl SendError))\<lparr>availableToSend := Fin 5\<rparr>]) = Some (Rejected None)"
  by (simp add: session_defs)


section \<open>The idle deadline\<close>

lemma sendOne_deadline:
  "timeout (stateOf (sendOne cv sl s e q))
     = (if isFulfill (reply e) then fulfilledAt e + IDLE_TIMEOUT else timeout s)
   \<and> fulfillCount (stateOf (sendOne cv sl s e q))
     = (if isFulfill (reply e) then fulfillCount s + 1 else fulfillCount s)"
proof (cases rule: sendOne_cases [where cv = cv and sl = sl and s = s and e = e and q = q])
  case (rejected code data s4)
  then show ?thesis using onReject_fields(2,4) [OF rejected(2)] by simp
qed simp_all

lemma attempt_deadline:
  "timeout (stateOf (attempt cv sl s e))
     = (if sendsPacket cv s e \<and> isFulfill (reply e)
        then fulfilledAt e + IDLE_TIMEOUT else timeout s)
   \<and> fulfillCount (stateOf (attempt cv sl s e))
     = (if sendsPacket cv s e \<and> isFulfill (reply e)
        then fulfillCount s + 1 else fulfillCount s)"
proof (cases rule: attempt_cases [where cv = cv and sl = sl and s = s and e = e])
  case send
  then have "sendsPacket cv s e" by (simp add: sendsPacket_def)
  then show ?thesis unfolding send(7) using sendOne_deadline [of cv sl s e] by simp
qed (simp_all add: sendsPacket_def)

text \<open>A call within the deadline whose packet, if one is sent, is rejected with a code
  other than F08 leaves the amounts, the deadline and the fulfill count as they were.\<close>

lemma attempt_other_reject:
  assumes s: "amountToSend s = Fin a" "totalFulfilled s = Fin 0" "0 < a"
    and live: "now e \<le> timeout s"
    and cap: "\<not> bn_gt (toSourceExchange cv (Fin a)) (availableToSend e)"
             "\<not> bn_gt (toDestExchange cv (Fin a)) (availableToReceive e)"
    and rej: "otherReject (reply e)"
  shows "\<exists>s'. attempt cv sl s e = Next s' \<and> amountToSend s' = Fin a
             \<and> totalFulfilled s' = Fin 0 \<and> timeout s' = timeout s
             \<and> fulfillCount s' = fulfillCount s \<and> prepareCount s' \<le> prepareCount s + 1"
proof -
  have R: "bn_minus (amountToSend s) (totalFulfilled s) = Fin a" using s by simp
  obtain code data where r: "reply e = Inr (IlpReject code data)" "code \<noteq> ''F08''"
    using rej by (cases "reply e" rule: otherReject.cases) auto
  show ?thesis
  proof (cases rule: attempt_cases [where cv = cv and sl = sl and s = s and e = e])
    case wait
    then show ?thesis using s by simp
  next
    case send
    let ?q = "packetAmountFor (toSourceBase cv (availableToDebit e))
        (bn_minus (amountToSend s) (totalFulfilled s)) (maxPacketAmount s)"
    have "sendOne cv sl s e ?q
        = Next (deregisterPacketHandler
            (logLine (LogRejected (prepareCount s + 1) code) (preparePacket cv sl s e ?q)))"
      using r by (simp add: sendOne_def onReject_other Let_def)
    then show ?thesis using send(7) s by simp
  qed (use s live cap R in simp_all)
qed

lemma idle_run:
  assumes s: "amountToSend s = Fin a" "totalFulfilled s = Fin 0" "0 < a"
    and pre: "\<forall>x \<in> set pre. now x \<le> timeout s
                \<and> \<not> bn_gt (toSourceExchange cv (Fin a)) (availableToSend x)
                \<and> \<not> bn_gt (toDestExchange cv (Fin a)) (availableToReceive x)
                \<and> otherReject (reply x)"
    and late: "timeout s < now e"
  shows "\<exists>s'. trySendPacket cv sl s (pre @ e # post) = Some (TimedOut, logLine LogTimedOut s')
             \<and> fulfillCount s' = fulfillCount s \<and> prepareCount s' \<le> prepareCount s + length pre
             \<and> timeout s' = timeout s"
  using s pre late
proof (induction pre arbitrary: s)
  case Nil
  then have "trySendPacket cv sl s ([] @ e # post) = Some (TimedOut, logLine LogTimedOut s)"
    by (simp add: attempt_def)
  then show ?case by auto
next
  case (Cons x pre)
  obtain s1 where s1: "attempt cv sl s x = Next s1" "amountToSend s1 = Fin a"
      "totalFulfilled s1 = Fin 0" "timeout s1 = timeout s"
      "fulfillCount s1 = fulfillCount s" "prepareCount s1 \<le> prepareCount s + 1"
    using attempt_other_reject [OF Cons.prems(1-3), of x cv sl] Cons.prems(4) by auto
  obtain s' where "trySendPacket cv sl s1 (pre @ e # post) = Some (TimedOut, logLine LogTimedOut s')"
      "fulfillCount s' = fulfillCount s1" "prepareCount s' \<le> prepareCount s1 + length pre"
      "timeout s' = timeout s1"
    using Cons.IH [OF s1(2,3) Cons.prems(3)] Cons.prems(4,5) s1(4) by auto
  then show ?case using s1 by auto
qed

text \<open>
  C6.  The idle deadline is the clock plus the idle window when the session starts.  A call
  of \<^verbatim>\<open>trySendPacket\<close> whose checks let a packet through and whose packet is fulfilled
  sets the deadline to the clock of the fulfill plus the idle window and counts the
  fulfill; every other call leaves the deadline and the fulfill count as they were.  When
  every call within the first idle window has its packet, if it sends one, rejected with a
  code other than F08 (the capacities letting the remaining amount through), the first call
  after the window ends the loop at the timeout return, the timeout logged, with
  \<open>fulfillCount = 0\<close> and the deadline still that of the start, and \<^verbatim>\<open>streamMoney\<close>
  settles as rejected.  And a call that starts after the idle deadline always ends the loop
  at the timeout return.
\<close>

theorem idle_timeout:
  assumes amount: "toSourceBase cv (amount opts) = Fin a" "0 < a"
    and pre: "\<forall>x \<in> set pre. now x \<le> dateNow + IDLE_TIMEOUT
                \<and> \<not> bn_gt (toSourceExchange cv (Fin a)) (availableToSend x)
                \<and> \<not> bn_gt (toDestExchange cv (Fin a)) (availableToReceive x)
                \<and> otherReject (reply x)"
    and late: "dateNow + IDLE_TIMEOUT < now e"
  shows "timeout (startSession cv opts dateNow) = dateNow + IDLE_TIMEOUT
    \<and> timeout (stateOf (attempt cv sl s x))
        = (if sendsPacket cv s x \<and> isFulfill (reply x)
           then fulfilledAt x + IDLE_TIMEOUT else timeout s)
    \<and> fulfillCount (stateOf (attempt cv sl s x))
        = (if sendsPacket cv s x \<and> isFulfill (reply x)
           then fulfillCount s + 1 else fulfillCount s)
    \<and> (\<exists>s'. trySendPacket cv sl (startSession cv opts dateNow) (pre @ e # post)
               = Some (TimedOut, logLine LogTimedOut s')
             \<and> fulfillCount s' = 0 \<and> prepareCount s' \<le> length pre
             \<and> timeout s' = dateNow + IDLE_TIMEOUT)
    \<and> (\<exists>s'. streamMoney cv opts dateNow (pre @ e # post)
               = Some (Rejected None, onFinally (logLine LogTimedOut s'))
             \<and> fulfillCount s' = 0)
    \<and> (timeout s < now x \<longrightarrow>
         trySendPacket cv sl s (x # es) = Some (TimedOut, logLine LogTimedOut s))"
proof -
  let ?init = "startSession cv opts dateNow"
  have s0: "amountToSend ?init = Fin a" "totalFulfilled ?init = Fin 0"
    "timeout ?init = dateNow + IDLE_TIMEOUT" "fulfillCount ?init = 0" "prepareCount ?init = 0"
    using amount by (simp_all add: startSession_def bumpIdle_def)
  have run: "\<exists>s'. trySendPacket cv sl' ?init (pre @ e # post)
               = Some (TimedOut, logLine LogTimedOut s')
             \<and> fulfillCount s' = 0 \<and> prepareCount s' \<le> length pre
             \<and> timeout s' = dateNow + IDLE_TIMEOUT" for sl'
    using idle_run [OF s0(1,2) amount(2), of pre cv e sl' post] pre late s0(3,4,5) by simp
  have stream: "\<exists>s'. streamMoney cv opts dateNow (pre @ e # post)
               = Some (Rejected None, onFinally (logLine LogTimedOut s'))
             \<and> fulfillCount s' = 0"
    using run [of "slippageOf opts"] by (auto simp: streamMoney_def)
  have past: "trySendPacket cv sl s (x # es) = Some (TimedOut, logLine LogTimedOut s)"
    if "timeout s < now x"
    using that by (simp add: attempt_def)
  show ?thesis
    using s0(3) attempt_deadline [of cv sl s x] run [of sl] stream past by blast
qed

theorem idle_timeout_witness:
  "(\<exists>s'. trySendPacket exampleConverter (Fin (1 / 100))
          (startSession exampleConverter (exampleOpts 10) 0)
          ([exampleEnv 1 (Inr (IlpReject ''F99'' [])), exampleEnv 6000 (Inr (IlpReject ''T00'' []))]
           @ exampleEnv 10001 (Inr (IlpReject ''F99'' [])) # [])
        = Some (TimedOut, logLine LogTimedOut s')
      \<and> fulfillCount s' = 0 \<and> prepareCount s' \<le> 2 \<and> timeout s' = 0 + IDLE_TIMEOUT)
   \<and> timeout (stateOf (attempt exampleConverter (Fin (1 / 100))
        (startSession exampleConverter (exampleOpts 10) 0)
        ((exampleEnv 9000 (Inr (IlpFulfill [] [])))\<lparr>availableToDebit := Fin 5\<rparr>))) = 19000
   \<and> fulfillCount (stateOf (attempt exampleConverter (Fin (1 / 100))
        (startSession exampleConverter (exampleOpts 10) 0)
        ((exampleEnv 9000 (Inr (IlpFulfill [] [])))\<lparr>availableToDebit := Fin 5\<rparr>))) = 1
   \<and> timeout (stateOf (attempt exampleConverter (Fin (1 / 100))
        (startSession exampleConverter (exampleOpts 10) 0)
        ((exampleEnv 9000 (Inr (IlpReject ''F99'' [])))\<lparr>availableToDebit := Fin 5\<rparr>))) = 10000
   \<and> map_option fst (trySendPacket exampleConverter (Fin (1 / 100))
        (startSession exampleConverter (exampleOpts 10) 0)
        [(exampleEnv 9000 (Inr (IlpFulfill [] [])))\<lparr>availableToDebit := Fin 5\<rparr>,
         exampleEnv 15000 (Inr (IlpFulfill [] [])),
         exampleEnv 15001 (Inr (IlpFulfill [] []))]) = Some Succeeded
   \<and> map_option fst (trySendPacket exampleConverter (Fin (1 / 100))
        (startSession exampleConverter (exampleOpts 10) 0)
        [(exampleEnv 9000 (Inr (IlpReject ''F99'' [])))\<lparr>availableToDebit := Fin 5\<rparr>,
         exampleEnv 15000 (Inr (IlpFulfill [] [])),
         exampleEnv 15001 (Inr (IlpFulfill [] []))]) = Some TimedOut"
proof -
  let ?pre = "[exampleEnv 1 (Inr (IlpReject ''F99'' [])), exampleEnv 6000 (Inr (IlpReject ''T00'' []))]"
  let ?e = "exampleEnv 10001 (Inr (IlpReject ''F99'' []))"
  let ?init = "startSession exampleConverter (exampleOpts 10) 0"
  let ?x = "(exampleEnv 9000 (Inr (IlpFulfill [] [])))\<lparr>availableToDebit := Fin 5\<rparr>"
  let ?y = "(exampleEnv 9000 (Inr (IlpReject ''F99'' [])))\<lparr>availableToDebit := Fin 5\<rparr>"
  have a: "toSourceBase exampleConverter (amount (exampleOpts 10)) = Fin 10" "(0 :: rat) < 10"
    by (simp_all add: exampleConverter_def exampleOpts_def)
  have p: "\<forall>x \<in> set ?pre. now x \<le> 0 + IDLE_TIMEOUT
                \<and> \<not> bn_gt (toSourceExchange exampleConverter (Fin 10)) (availableToSend x)
                \<and> \<not> bn_gt (toDestExchange exampleConverter (Fin 10)) (availableToReceive x)
                \<and> otherReject (reply x)"
    by (simp add: exampleEnv_def exampleConverter_def IDLE_TIMEOUT_def)
  have l: "0 + IDLE_TIMEOUT < now ?e"
    by (simp add: exampleEnv_def IDLE_TIMEOUT_def)
  have n: "length ?pre = 2" by simp
  have sx: "sendsPacket exampleConverter ?init ?x"
    by (simp add: sendsPacket_def startSession_def bumpIdle_def exampleConverter_def
        exampleEnv_def exampleOpts_def IDLE_TIMEOUT_def)
  have fx: "isFulfill (reply ?x)" "fulfilledAt ?x = 9000"
    by (simp_all add: exampleEnv_def)
  have fy: "\<not> isFulfill (reply ?y)"
    by (simp add: exampleEnv_def)
  have t0: "timeout ?init = 10000" "fulfillCount ?init = 0"
    by (simp_all add: startSession_def bumpIdle_def IDLE_TIMEOUT_def)
  note t = idle_timeout [OF a p l, of "Fin (1 / 100)" ?init ?x "[]" "[]"]
  note u = idle_timeout [OF a p l, of "Fin (1 / 100)" ?init ?y "[]" "[]"]
  have 1: "\<exists>s'. trySendPacket exampleConverter (Fin (1 / 100)) ?init (?pre @ ?e # [])
        = Some (TimedOut, logLine LogTimedOut s')
      \<and> fulfillCount s' = 0 \<and> prepareCount s' \<le> 2 \<and> timeout s' = 0 + IDLE_TIMEOUT"
    using t [THEN conjunct2, THEN conjunct2, THEN conjunct2, THEN conjunct1] unfolding n .
  have 2: "timeout (stateOf (attempt exampleConverter (Fin (1 / 100)) ?init ?x)) = 19000"
    using t [THEN conjunct2, THEN conjunct1] sx fx by (simp add: IDLE_TIMEOUT_def)
  have 3: "fulfillCount (stateOf (attempt exampleConverter (Fin (1 / 100)) ?init ?x)) = 1"
    using t [THEN conjunct2, THEN conjunct2, THEN conjunct1] sx fx t0 by simp
  have 4: "timeout (stateOf (attempt exampleConverter (Fin (1 / 100)) ?init ?y)) = 10000"
    using u [THEN conjunct2, THEN conjunct1] fy t0 by simp
  have 5: "map_option fst (trySendPacket exampleConverter (Fin (1 / 100)) ?init
        [?x, exampleEnv 15000 (Inr (IlpFulfill [] [])), exampleEnv 15001 (Inr (IlpFulfill [] []))])
      = Some Succeeded"
    by (simp add: session_defs)
  have 6: "map_option fst (trySendPacket exampleConverter (Fin (1 / 100)) ?init
        [?y, exampleEnv 15000 (Inr (IlpFulfill [] [])), exampleEnv 15001 (Inr (IlpFulfill [] []))])
      = Some TimedOut"
    by (simp add: session_defs)
  show ?thesis
    using 1 2 3 4 5 6 by (simp only: simp_thms)
qed


section \<open>The total fulfilled\<close>

lemma sentAmounts_append: "sentAmounts (xs @ ys) = sentAmounts xs @ sentAmounts ys"
  by (induction xs rule: sentAmounts.induct) simp_all

lemma packetAmountFor_finite:
  assumes r: "0 < r" and a: "\<not> bn_lte a (Fin 0)" "a \<noteq> NaN" and m: "maxOk m"
  shows "\<exists>j. packetAmountFor a (Fin r) m = Fin j \<and> 0 \<le> j"
proof -
  have "packetAmountFor a (Fin r) m \<noteq> NaN"
  proof -
    obtain p where p: "bn_min a [Fin r, m] = Fin p" "0 \<le> p" "p \<le> r"
      using bn_min3_Fin [OF a r m] by blast
    show ?thesis
    proof (cases "p = 0")
      case True
      then show ?thesis using packetAmountFor_zero [of a r m] p r by simp
    next
      case False
      then show ?thesis using packetAmountFor_pos [OF p(1) _ p(3)] p(2) by simp
    qed
  qed
  moreover have "\<not> bn_isZero (Fin r)" "\<not> bn_lte (Fin r) (Fin 0)" using r by simp_all
  ultimately show ?thesis
    using packetAmountFor_shape [OF _ _ a(1) m, of "Fin r"] by (metis of_int_0_le_iff)
qed

text \<open>The invariant: the total is a number, and either at most the amount to send or
  below the amount to send plus one of the packets sent; the packets sent are non-negative
  numbers.\<close>

lemma sendOne_total:
  fixes cv sl s e
  assumes A: "amountToSend s = Fin a" and t: "totalFulfilled s = Fin t" "t < a"
    and inv: "\<forall>q \<in> set (sentAmounts (logs s)). \<exists>j. q = Fin j \<and> 0 \<le> j"
    and j: "0 \<le> j"
  defines "s' \<equiv> stateOf (sendOne cv sl s e (Fin j))"
  shows "amountToSend s' = Fin a
    \<and> (\<exists>t'. totalFulfilled s' = Fin t'
          \<and> (t' \<le> a \<or> (\<exists>j'. Fin j' \<in> set (sentAmounts (logs s')) \<and> t' < a + j')))
    \<and> (\<forall>q \<in> set (sentAmounts (logs s')). \<exists>j. q = Fin j \<and> 0 \<le> j)"
proof (cases rule: sendOne_cases [where cv = cv and sl = sl and s = s and e = e and q = "Fin j"])
  case (threw x)
  then show ?thesis using A t inv j by (auto simp: s'_def sentAmounts_append)
next
  case (unreadable code data)
  then show ?thesis using A t inv j by (auto simp: s'_def sentAmounts_append)
next
  case (rejected code data s4)
  obtain ls where ls: "logs s4 = logs (preparePacket cv sl s e (Fin j)) @ LogRejected (prepareCount s + 1) code # ls"
      "sentAmounts ls = []"
    using onReject_fields(7) [OF rejected(2)] by blast
  show ?thesis
    using rejected(3) onReject_fields(1,5) [OF rejected(2)] ls A t inv j
    by (auto simp: s'_def sentAmounts_append)
next
  case (fulfilled f d)
  have "t + j < a + j" using t by simp
  then show ?thesis
    using fulfilled A t inv j by (auto simp: s'_def sentAmounts_append)
qed

lemma attempt_total:
  fixes cv sl s e
  assumes A: "amountToSend s = Fin a"
    and t: "\<exists>t. totalFulfilled s = Fin t
              \<and> (t \<le> a \<or> (\<exists>j. Fin j \<in> set (sentAmounts (logs s)) \<and> t < a + j))"
    and inv: "\<forall>q \<in> set (sentAmounts (logs s)). \<exists>j. q = Fin j \<and> 0 \<le> j"
    and m: "maxOk (maxPacketAmount s)"
    and d: "toSourceBase cv (availableToDebit e) \<noteq> NaN"
  defines "s' \<equiv> stateOf (attempt cv sl s e)"
  shows "amountToSend s' = Fin a
    \<and> (\<exists>t'. totalFulfilled s' = Fin t'
          \<and> (t' \<le> a \<or> (\<exists>j'. Fin j' \<in> set (sentAmounts (logs s')) \<and> t' < a + j')))
    \<and> (\<forall>q \<in> set (sentAmounts (logs s')). \<exists>j. q = Fin j \<and> 0 \<le> j)"
proof (cases rule: attempt_cases [where cv = cv and sl = sl and s = s and e = e])
  case send
  obtain t where t': "totalFulfilled s = Fin t" using t by blast
  have R: "bn_minus (amountToSend s) (totalFulfilled s) = Fin (a - t)" using A t' by simp
  have pos: "0 < a - t" using send(2,3) R by simp
  obtain j where j: "packetAmountFor (toSourceBase cv (availableToDebit e)) (Fin (a - t))
      (maxPacketAmount s) = Fin j" "0 \<le> j"
    using packetAmountFor_finite [OF pos send(6) d m] by blast
  have "t < a" using pos by simp
  then show ?thesis
    unfolding s'_def send(7) R j(1) by (intro sendOne_total [OF A t' _ inv j(2)])
qed (use A t inv in \<open>auto simp: s'_def sentAmounts_append\<close>)

lemma sessionAfter_total:
  fixes cv sl s es
  assumes "amountToSend s = Fin a"
    and "\<exists>t. totalFulfilled s = Fin t
              \<and> (t \<le> a \<or> (\<exists>j. Fin j \<in> set (sentAmounts (logs s)) \<and> t < a + j))"
    and "\<forall>q \<in> set (sentAmounts (logs s)). \<exists>j. q = Fin j \<and> 0 \<le> j"
    and "maxOk (maxPacketAmount s)"
    and "\<forall>e \<in> set es. toSourceBase cv (availableToDebit e) \<noteq> NaN"
  defines "s' \<equiv> sessionAfter cv sl s es"
  shows "amountToSend s' = Fin a
    \<and> (\<exists>t'. totalFulfilled s' = Fin t'
          \<and> (t' \<le> a \<or> (\<exists>j'. Fin j' \<in> set (sentAmounts (logs s')) \<and> t' < a + j')))
    \<and> (\<forall>q \<in> set (sentAmounts (logs s')). \<exists>j. q = Fin j \<and> 0 \<le> j)"
  using assms(1-5) unfolding s'_def
proof (induction es arbitrary: s)
  case Nil
  then show ?case by simp
next
  case (Cons e es)
  have d: "toSourceBase cv (availableToDebit e) \<noteq> NaN" using Cons.prems(5) by simp
  note a = attempt_total [OF Cons.prems(1-4) d, of sl]
  show ?case
  proof (cases "attempt cv sl s e")
    case (Done out s1)
    then show ?thesis using a by simp
  next
    case (Next s1)
    have m1: "maxOk (maxPacketAmount s1)"
      using attempt_max [OF Cons.prems(4), of cv sl e] Next by simp
    show ?thesis
      using Cons.IH [of s1] a m1 Cons.prems(5) Next by simp
  qed
qed

lemma largest_Fin:
  assumes "\<forall>q \<in> set qs. \<exists>j. q = Fin j \<and> 0 \<le> j"
  shows "\<exists>l. largest qs = Fin l \<and> 0 \<le> l \<and> (\<forall>j. Fin j \<in> set qs \<longrightarrow> j \<le> l)"
  using assms by (induction qs) (auto, force+)


text \<open>
  C5.  For a stream of a non-negative amount whose debit capacities are numbers, after any
  calls the total fulfilled is at most the amount to send, or below the amount to send plus
  the amount of one of the packets sent; and when the loop has ended with the total above
  the amount to send, the excess is strictly less than the largest packet amount sent.
\<close>

theorem totalFulfilled_overshoot_bound:
  assumes amount: "toSourceBase cv (amount opts) = Fin a" "0 \<le> a"
    and debit: "\<forall>e \<in> set es. toSourceBase cv (availableToDebit e) \<noteq> NaN"
  shows "(bn_lte (totalFulfilled (sessionAfter cv sl (startSession cv opts dateNow) es))
            (amountToSend (sessionAfter cv sl (startSession cv opts dateNow) es))
          \<or> (\<exists>q \<in> set (sentAmounts (logs (sessionAfter cv sl (startSession cv opts dateNow) es))).
                bn_lt (totalFulfilled (sessionAfter cv sl (startSession cv opts dateNow) es))
                  (bn_plus (amountToSend (sessionAfter cv sl (startSession cv opts dateNow) es)) q)))
    \<and> (trySendPacket cv sl (startSession cv opts dateNow) es = Some (out, s')
         \<and> bn_gt (bn_minus (totalFulfilled s') (amountToSend s')) (Fin 0) \<longrightarrow>
         bn_lt (bn_minus (totalFulfilled s') (amountToSend s')) (largest (sentAmounts (logs s'))))"
proof -
  let ?init = "startSession cv opts dateNow"
  let ?s = "sessionAfter cv sl ?init es"
  have s0: "amountToSend ?init = Fin a"
    "\<exists>t. totalFulfilled ?init = Fin t
        \<and> (t \<le> a \<or> (\<exists>j. Fin j \<in> set (sentAmounts (logs ?init)) \<and> t < a + j))"
    "\<forall>q \<in> set (sentAmounts (logs ?init)). \<exists>j. q = Fin j \<and> 0 \<le> j"
    using amount by (simp_all add: startSession_def bumpIdle_def)
  note inv = sessionAfter_total [OF s0 startSession_maxOk debit, of sl]
  obtain t where t: "totalFulfilled ?s = Fin t"
      "t \<le> a \<or> (\<exists>j. Fin j \<in> set (sentAmounts (logs ?s)) \<and> t < a + j)"
    using inv by blast
  have A: "amountToSend ?s = Fin a" using inv by blast
  have 1: "bn_lte (totalFulfilled ?s) (amountToSend ?s)
          \<or> (\<exists>q \<in> set (sentAmounts (logs ?s)).
                bn_lt (totalFulfilled ?s) (bn_plus (amountToSend ?s) q))"
  proof (cases "t \<le> a")
    case True
    then show ?thesis using t(1) A by simp
  next
    case False
    then obtain j where "Fin j \<in> set (sentAmounts (logs ?s))" "t < a + j" using t(2) by blast
    then have "\<exists>q \<in> set (sentAmounts (logs ?s)). bn_lt (Fin t) (bn_plus (Fin a) q)"
      by (intro bexI [of _ "Fin j"]) simp_all
    then show ?thesis using t(1) A by simp
  qed
  have 2: "bn_lt (bn_minus (totalFulfilled s') (amountToSend s')) (largest (sentAmounts (logs s')))"
    if run: "trySendPacket cv sl ?init es = Some (out, s')"
      and over: "bn_gt (bn_minus (totalFulfilled s') (amountToSend s')) (Fin 0)"
  proof -
    have s': "s' = ?s" using trySendPacket_sessionAfter [OF run] by simp
    have "a < t" using over t(1) A by (simp add: s')
    then obtain j where j: "Fin j \<in> set (sentAmounts (logs ?s))" "t < a + j" using t(2) by auto
    obtain l where l: "largest (sentAmounts (logs ?s)) = Fin l" "\<forall>j. Fin j \<in> set (sentAmounts (logs ?s)) \<longrightarrow> j \<le> l"
      using largest_Fin [of "sentAmounts (logs ?s)"] inv by blast
    have "t - a < l" using j l(2) by fastforce
    then show ?thesis using t(1) A l(1) by (simp add: s')
  qed
  show ?thesis using 1 2 by blast
qed

theorem totalFulfilled_overshoot_bound_witness:
  "\<exists>s'. trySendPacket exampleConverter (Fin (1 / 100))
          (startSession exampleConverter (exampleOpts (5 / 2)) 0)
          [exampleEnv 1 (Inr (IlpFulfill [] [])), exampleEnv 2 (Inr (IlpFulfill [] []))]
        = Some (SentTooMuch, s')
      \<and> totalFulfilled s' = Fin 3 \<and> amountToSend s' = Fin (5 / 2)
      \<and> bn_lt (bn_minus (totalFulfilled s') (amountToSend s')) (largest (sentAmounts (logs s')))"
proof -
  let ?es = "[exampleEnv 1 (Inr (IlpFulfill [] [])), exampleEnv 2 (Inr (IlpFulfill [] []))]"
  let ?init = "startSession exampleConverter (exampleOpts (5 / 2)) 0"
  have a: "toSourceBase exampleConverter (amount (exampleOpts (5 / 2))) = Fin (5 / 2)" "(0 :: rat) \<le> 5 / 2"
    by (simp_all add: exampleConverter_def exampleOpts_def)
  have d: "\<forall>e \<in> set ?es. toSourceBase exampleConverter (availableToDebit e) \<noteq> NaN"
    by (simp add: exampleConverter_def exampleEnv_def)
  have "\<exists>s'. trySendPacket exampleConverter (Fin (1 / 100)) ?init ?es = Some (SentTooMuch, s')
      \<and> totalFulfilled s' = Fin 3 \<and> amountToSend s' = Fin (5 / 2)"
    by (simp add: session_defs)
  then obtain s' where s': "trySendPacket exampleConverter (Fin (1 / 100)) ?init ?es = Some (SentTooMuch, s')"
      "totalFulfilled s' = Fin 3" "amountToSend s' = Fin (5 / 2)"
    by blast
  have o: "bn_gt (bn_minus (totalFulfilled s') (amountToSend s')) (Fin 0)"
    using s'(2,3) by simp
  have "bn_lt (bn_minus (totalFulfilled s') (amountToSend s')) (largest (sentAmounts (logs s')))"
    using totalFulfilled_overshoot_bound [OF a d, of "Fin (1 / 100)" 0 SentTooMuch s',
        THEN conjunct2] s'(1) o by blast
  then show ?thesis using s' by blast
qed


section \<open>Exact completion\<close>

lemma bn_min_unbound:
  assumes "bn_gte a (Fin r)"
  shows "bn_min a [Fin r, PInf] = Fin r"
  using assms by (cases a) (auto simp: bn_min_def)

lemma packetAmountFor_whole_remaining:
  assumes k: "0 < k" and a: "bn_gte a (Fin (of_int k))"
  shows "packetAmountFor a (Fin (of_int k)) PInf = Fin (of_int k)"
proof -
  have k': "(0 :: rat) < of_int k" using k by simp
  have 1: "round_half_up 20 ((of_int k :: rat) / of_int k) = 1"
    using k' round_half_up_of_int [of 1 20] by simp
  have 2: "round_half_up 20 (of_int k) = of_int k"
    using k by (intro round_half_up_of_int) simp
  show ?thesis
    using packetAmountFor_pos [OF bn_min_unbound [OF a] k'] 1 2 by simp
qed

text \<open>
  C4, as the code has it.  When the amount to send is a whole, non-negative number of base
  units, the first call finds the capacities sufficient (the debit capacity at least the
  amount) and its packet fulfilled, and the clock does not pass the idle window between a
  refresh of the deadline and the next check, the stream ends at the success return, with
  the total fulfilled equal to the amount to send and as many fulfills as prepares, and
  \<^verbatim>\<open>streamMoney\<close> resolves.
\<close>

theorem exact_completion:
  assumes amount: "toSourceBase cv (amount opts) = Fin (of_int k)" "0 \<le> k"
    and live1: "now e1 \<le> dateNow + IDLE_TIMEOUT"
    and outgoing: "\<not> bn_gt (toSourceExchange cv (Fin (of_int k))) (availableToSend e1)"
    and incoming: "\<not> bn_gt (toDestExchange cv (Fin (of_int k))) (availableToReceive e1)"
    and debit: "bn_gte (toSourceBase cv (availableToDebit e1)) (Fin (of_int k))"
    and fulfilled: "reply e1 = Inr (IlpFulfill f d)"
    and live2: "now e2 \<le> fulfilledAt e1 + IDLE_TIMEOUT"
  shows "\<exists>s. trySendPacket cv (slippageOf opts) (startSession cv opts dateNow) (e1 # e2 # es)
              = Some (Succeeded, s)
            \<and> totalFulfilled s = amountToSend s \<and> fulfillCount s = prepareCount s
            \<and> streamMoney cv opts dateNow (e1 # e2 # es) = Some (Resolved, onFinally s)"
proof -
  let ?init = "startSession cv opts dateNow"
  let ?sl = "slippageOf opts"
  have init: "amountToSend ?init = Fin (of_int k)" "totalFulfilled ?init = Fin 0"
    "timeout ?init = dateNow + IDLE_TIMEOUT" "fulfillCount ?init = 0" "prepareCount ?init = 0"
    "maxPacketAmount ?init = PInf"
    using amount by (simp_all add: startSession_def bumpIdle_def)
  have run: "\<exists>s. trySendPacket cv ?sl ?init (e1 # e2 # es) = Some (Succeeded, s)
            \<and> totalFulfilled s = amountToSend s \<and> fulfillCount s = prepareCount s"
  proof (cases "k = 0")
    case True
    then have "attempt cv ?sl ?init e1
        = Done Succeeded (logLine (LogSucceeded (format cv (amountToSend ?init))) ?init)"
      using init live1 by (simp add: attempt_def)
    then show ?thesis using init True by simp
  next
    case False
    then have k: "0 < k" using amount(2) by simp
    have nz: "\<not> bn_lte (toSourceBase cv (availableToDebit e1)) (Fin 0)"
      using debit k by (cases "toSourceBase cv (availableToDebit e1)") auto
    let ?s1 = "deregisterPacketHandler
        (onFulfill cv (preparePacket cv ?sl ?init e1 (Fin (of_int k))) 1 (Fin (of_int k))
           (fulfilledAt e1))"
    have 1: "attempt cv ?sl ?init e1 = Next ?s1"
      using init live1 outgoing incoming nz k fulfilled
      by (simp add: attempt_def sendOne_def Let_def packetAmountFor_whole_remaining [OF k debit])
    have s1: "amountToSend ?s1 = Fin (of_int k)" "totalFulfilled ?s1 = Fin (of_int k)"
      "timeout ?s1 = fulfilledAt e1 + IDLE_TIMEOUT" "fulfillCount ?s1 = 1" "prepareCount ?s1 = 1"
      using init by simp_all
    have 2: "attempt cv ?sl ?s1 e2
        = Done Succeeded (logLine (LogSucceeded (format cv (amountToSend ?s1))) ?s1)"
      using s1 live2 by (simp add: attempt_def)
    show ?thesis
      using 1 2 s1 by simp
  qed
  then show ?thesis by (auto simp: streamMoney_def)
qed

theorem exact_completion_witness:
  "\<exists>s. trySendPacket exampleConverter (slippageOf (exampleOpts 100))
          (startSession exampleConverter (exampleOpts 100) 0)
          [exampleEnv 1 (Inr (IlpFulfill [] [])), exampleEnv 2 (Inr (IlpFulfill [] []))]
        = Some (Succeeded, s)
      \<and> totalFulfilled s = amountToSend s \<and> fulfillCount s = prepareCount s
      \<and> streamMoney exampleConverter (exampleOpts 100) 0
          [exampleEnv 1 (Inr (IlpFulfill [] [])), exampleEnv 2 (Inr (IlpFulfill [] []))]
        = Some (Resolved, onFinally s)"
proof -
  let ?e1 = "exampleEnv 1 (Inr (IlpFulfill [] []))"
  let ?e2 = "exampleEnv 2 (Inr (IlpFulfill [] []))"
  have a: "toSourceBase exampleConverter (amount (exampleOpts 100)) = Fin (of_int 100)" "(0 :: int) \<le> 100"
    by (simp_all add: exampleConverter_def exampleOpts_def)
  have 1: "now ?e1 \<le> 0 + IDLE_TIMEOUT"
    by (simp add: exampleEnv_def IDLE_TIMEOUT_def)
  have 2: "\<not> bn_gt (toSourceExchange exampleConverter (Fin (of_int 100))) (availableToSend ?e1)"
    "\<not> bn_gt (toDestExchange exampleConverter (Fin (of_int 100))) (availableToReceive ?e1)"
    "bn_gte (toSourceBase exampleConverter (availableToDebit ?e1)) (Fin (of_int 100))"
    by (simp_all add: exampleEnv_def exampleConverter_def)
  have 3: "reply ?e1 = Inr (IlpFulfill [] [])"
    by (simp add: exampleEnv_def)
  have 4: "now ?e2 \<le> fulfilledAt ?e1 + IDLE_TIMEOUT"
    by (simp add: exampleEnv_def IDLE_TIMEOUT_def)
  show ?thesis
    using exact_completion [OF a 1 2 3 4, of "[]"] by simp
qed

text \<open>
  C4 as stated fails for an amount that is not a whole number of base units: with every
  capacity unlimited and every packet fulfilled, half a base unit is sent as a packet of
  one, and the stream ends at the sent-too-much return with a total of one.
\<close>

theorem fractional_amount_overshoot_counterexample:
  "map_option (\<lambda>(out, s). (out, totalFulfilled s, amountToSend s, fulfillCount s, prepareCount s))
     (trySendPacket exampleConverter (slippageOf (exampleOpts (1 / 2)))
        (startSession exampleConverter (exampleOpts (1 / 2)) 0)
        [exampleEnv 1 (Inr (IlpFulfill [] [])), exampleEnv 2 (Inr (IlpFulfill [] []))])
   = Some (SentTooMuch, Fin 1, Fin (1 / 2), 1, 1)"
  by (simp add: session_defs)


section \<open>The packet sizing\<close>

lemma bn_min_le_remaining: "bn_min a [Fin r, m] = Fin p \<Longrightarrow> p \<le> r"
  by (cases a; cases m) (auto simp: bn_min_def split: if_splits)

lemma bn_min_is_min:
  "bn_min (Fin x) [Fin y, Fin z] = Fin (min x (min y z))"
  "bn_min (Fin x) [Fin y, PInf] = Fin (min x y)"
  "bn_min PInf [Fin y, Fin z] = Fin (min y z)"
  "bn_min PInf [Fin y, PInf] = Fin y"
  by (auto simp: bn_min_def min_def)

text \<open>The sending of a packet adds its amount, and nothing else, to the amounts sent.\<close>

lemma sendOne_sentAmounts:
  "sentAmounts (logs (stateOf (sendOne cv sl s e q))) = sentAmounts (logs s) @ [q]"
proof (cases rule: sendOne_cases [where cv = cv and sl = sl and s = s and e = e and q = q])
  case (rejected code data s4)
  obtain ls where "logs s4 = logs (preparePacket cv sl s e q) @ LogRejected (prepareCount s + 1) code # ls"
      "sentAmounts ls = []"
    using onReject_fields(7) [OF rejected(2)] by blast
  then show ?thesis using rejected(3) by (simp add: sentAmounts_append)
qed (simp_all add: sentAmounts_append)

lemma spec_packetAmount_exact:
  fixes r p :: int
  assumes p: "0 < p" and pr: "p \<le> r" and rb: "r \<le> 2 * 10 ^ 20"
  shows "\<lceil>round_half_up 20 (of_int r / of_int \<lceil>round_half_up 20 (of_int r / of_int p)\<rceil>)\<rceil>
         = spec_packetAmount (of_int r) (of_int p)"
proof -
  have r0: "0 \<le> r" using p pr by simp
  have n: "\<lceil>round_half_up 20 (of_int r / of_int p)\<rceil> = spec_numPackets (of_int r) (of_int p)"
    unfolding spec_numPackets_def
    using p pr rb by (intro ceiling_round_half_up_exact r0) simp_all
  have n1: "1 \<le> spec_numPackets (of_int r) (of_int p)"
    using split_upper(1) [of "of_int p" "of_int r"] p pr unfolding n by simp
  have "(of_int r :: rat) / of_int p \<le> of_int r"
  proof -
    have "(1 :: rat) \<le> of_int p" using p by simp
    then have "(of_int r :: rat) * 1 \<le> of_int r * of_int p"
      using r0 by (intro mult_left_mono) simp_all
    then show ?thesis using p by (simp add: pos_divide_le_eq)
  qed
  then have "spec_numPackets (of_int r) (of_int p) \<le> r"
    unfolding spec_numPackets_def by (simp add: ceiling_le_iff)
  then have nb: "spec_numPackets (of_int r) (of_int p) \<le> 2 * 10 ^ 20" using rb by simp
  show ?thesis
    unfolding n spec_packetAmount_def
    using n1 nb by (intro ceiling_round_half_up_exact r0) simp_all
qed

text \<open>
  C1, as the code has it.  In a call that sends a packet, the amount of the packet sent (the
  one amount the call adds to the amounts sent) is derived from
  the minimum \<open>p\<close> of the available-to-debit (in source base units), the remaining amount and
  the maximum packet amount: \<open>numPackets\<close> is the quotient of the remaining amount by \<open>p\<close>
  rounded up to a whole number, and the packet amount is the quotient of the remaining
  amount by \<open>numPackets\<close> rounded up to a whole number, where each quotient is the one the
  decimal library returns, already rounded half-up to 20 decimal places.  When the
  remaining amount and \<open>p\<close> are whole numbers and the remaining amount is at most \<open>2 * 10^20\<close>,
  this is the equal split of the specification, with both exact quotients rounded up.
\<close>

theorem packetAmount_split:
  assumes live: "now e \<le> timeout s"
    and remaining: "\<not> bn_isZero (bn_minus (amountToSend s) (totalFulfilled s))"
                   "\<not> bn_lte (bn_minus (amountToSend s) (totalFulfilled s)) (Fin 0)"
    and capacity: "\<not> bn_gt (toSourceExchange cv (bn_minus (amountToSend s) (totalFulfilled s)))
                      (availableToSend e)"
                  "\<not> bn_gt (toDestExchange cv (bn_minus (amountToSend s) (totalFulfilled s)))
                      (availableToReceive e)"
    and debit: "\<not> bn_lte (toSourceBase cv (availableToDebit e)) (Fin 0)"
  shows "attempt cv sl s e
         = sendOne cv sl s e
             (bn_ceil (bn_div (bn_minus (amountToSend s) (totalFulfilled s))
                (bn_ceil (bn_div (bn_minus (amountToSend s) (totalFulfilled s))
                   (bn_min (toSourceBase cv (availableToDebit e))
                      [bn_minus (amountToSend s) (totalFulfilled s), maxPacketAmount s])))))
    \<and> sentAmounts (logs (stateOf (attempt cv sl s e)))
       = sentAmounts (logs s)
         @ [bn_ceil (bn_div (bn_minus (amountToSend s) (totalFulfilled s))
              (bn_ceil (bn_div (bn_minus (amountToSend s) (totalFulfilled s))
                 (bn_min (toSourceBase cv (availableToDebit e))
                    [bn_minus (amountToSend s) (totalFulfilled s), maxPacketAmount s]))))]
    \<and> (bn_minus (amountToSend s) (totalFulfilled s) = Fin (of_int r)
         \<and> bn_min (toSourceBase cv (availableToDebit e)) [Fin (of_int r), maxPacketAmount s]
             = Fin (of_int p)
         \<and> 0 < p \<and> r \<le> 2 * 10 ^ 20 \<longrightarrow>
         attempt cv sl s e
         = sendOne cv sl s e (Fin (of_int (spec_packetAmount (of_int r) (of_int p)))))
    \<and> bn_min (Fin x) [Fin y, Fin z] = Fin (min x (min y z))
    \<and> bn_min (Fin x) [Fin y, PInf] = Fin (min x y)
    \<and> bn_min PInf [Fin y, Fin z] = Fin (min y z)
    \<and> bn_min PInf [Fin y, PInf] = Fin y"
proof -
  let ?R = "bn_minus (amountToSend s) (totalFulfilled s)"
  let ?a = "toSourceBase cv (availableToDebit e)"
  have 1: "attempt cv sl s e = sendOne cv sl s e (packetAmountFor ?a ?R (maxPacketAmount s))"
    using assms by (simp add: attempt_def)
  have 2: "packetAmountFor ?a ?R (maxPacketAmount s)
      = Fin (of_int (spec_packetAmount (of_int r) (of_int p)))"
    if R: "?R = Fin (of_int r)"
      and m: "bn_min ?a [Fin (of_int r), maxPacketAmount s] = Fin (of_int p)"
      and p: "0 < p" and rb: "r \<le> 2 * 10 ^ 20"
  proof -
    have pr: "p \<le> r" using bn_min_le_remaining [OF m] by simp
    have "packetAmountFor ?a (Fin (of_int r)) (maxPacketAmount s)
        = Fin (of_int \<lceil>round_half_up 20 (of_int r / of_int \<lceil>round_half_up 20 (of_int r / of_int p)\<rceil>)\<rceil>)"
      using p pr by (intro packetAmountFor_pos [OF m]) simp_all
    then show ?thesis
      unfolding R spec_packetAmount_exact [OF p pr rb] .
  qed
  have 3: "sentAmounts (logs (stateOf (attempt cv sl s e)))
      = sentAmounts (logs s) @ [packetAmountFor ?a ?R (maxPacketAmount s)]"
    unfolding 1 by (rule sendOne_sentAmounts)
  show ?thesis
    using 1 2 3 bn_min_is_min by (simp add: packetAmountFor_def Let_def)
qed

theorem packetAmount_split_witness:
  "attempt exampleConverter (Fin (1 / 100)) (startSession exampleConverter (exampleOpts 100) 0)
     ((exampleEnv 1 (Inl SendError))\<lparr>availableToDebit := Fin 40\<rparr>)
   = sendOne exampleConverter (Fin (1 / 100)) (startSession exampleConverter (exampleOpts 100) 0)
       ((exampleEnv 1 (Inl SendError))\<lparr>availableToDebit := Fin 40\<rparr>) (Fin 34)
   \<and> spec_numPackets 100 40 = 3 \<and> spec_packetAmount 100 40 = 34"
proof -
  let ?s = "startSession exampleConverter (exampleOpts 100) 0"
  let ?e = "(exampleEnv 1 (Inl SendError))\<lparr>availableToDebit := Fin 40\<rparr>"
  have R: "bn_minus (amountToSend ?s) (totalFulfilled ?s) = Fin (of_int 100)"
    by (simp add: session_defs)
  have g: "now ?e \<le> timeout ?s"
    "\<not> bn_isZero (bn_minus (amountToSend ?s) (totalFulfilled ?s))"
    "\<not> bn_lte (bn_minus (amountToSend ?s) (totalFulfilled ?s)) (Fin 0)"
    "\<not> bn_gt (toSourceExchange exampleConverter (bn_minus (amountToSend ?s) (totalFulfilled ?s)))
        (availableToSend ?e)"
    "\<not> bn_gt (toDestExchange exampleConverter (bn_minus (amountToSend ?s) (totalFulfilled ?s)))
        (availableToReceive ?e)"
    "\<not> bn_lte (toSourceBase exampleConverter (availableToDebit ?e)) (Fin 0)"
    by (simp_all add: session_defs)
  have m: "bn_min (toSourceBase exampleConverter (availableToDebit ?e))
      [Fin (of_int 100), maxPacketAmount ?s] = Fin (of_int 40)"
    by (simp add: session_defs)
  have n: "spec_numPackets 100 40 = 3"
    by (simp add: spec_numPackets_def)
  have q: "spec_packetAmount 100 40 = 34"
    by (simp add: spec_packetAmount_def n)
  have "attempt exampleConverter (Fin (1 / 100)) ?s ?e
      = sendOne exampleConverter (Fin (1 / 100)) ?s ?e
          (Fin (of_int (spec_packetAmount (of_int 100) (of_int 40))))"
    using packetAmount_split [OF g, of "Fin (1 / 100)" 100 40,
        THEN conjunct2, THEN conjunct2, THEN conjunct1] R m
    by simp
  then show ?thesis using n q by simp
qed

text \<open>
  C1 as stated fails where the quotient's fraction is below the library's precision.  For
  an amount of \<open>2 * 10^21 + 1\<close> base units, after an F08 reject that halves the maximum to
  \<open>10^21\<close>, the quotient \<open>2 + 10^-21\<close> is rounded to \<open>2\<close> before the ceiling is taken: the
  code sends \<open>10^21 + 1\<close> (two packets), where the exact ceilings give three packets of
  \<open>666666666666666666667\<close>.
\<close>

theorem packetAmount_precision_counterexample:
  "maxPacketAmount (sessionAfter exampleConverter (Fin (1 / 100))
      (startSession exampleConverter (exampleOpts (2 * 10 ^ 21 + 1)) 0)
      [exampleEnv 1 (Inr (IlpReject ''F08'' [0, 0, 0, 0, 0, 0, 0, 2, 0, 0, 0, 0, 0, 0, 0, 1]))])
   = Fin (10 ^ 21)
   \<and> sentAmounts (logs (sessionAfter exampleConverter (Fin (1 / 100))
      (startSession exampleConverter (exampleOpts (2 * 10 ^ 21 + 1)) 0)
      [exampleEnv 1 (Inr (IlpReject ''F08'' [0, 0, 0, 0, 0, 0, 0, 2, 0, 0, 0, 0, 0, 0, 0, 1])),
       exampleEnv 2 (Inl SendError)]))
     = [Fin (2 * 10 ^ 21 + 1), Fin (10 ^ 21 + 1)]
   \<and> spec_numPackets (2 * 10 ^ 21 + 1) (10 ^ 21) = 3
   \<and> spec_packetAmount (2 * 10 ^ 21 + 1) (10 ^ 21) = 666666666666666666667"
  by (simp add: session_defs spec_packetAmount_def spec_numPackets_def)

end
